theory Spec2Isabelle
  imports Main
begin

section \<open>LRU replacer (src/buffer/lru_replacer.cpp)\<close>

text \<open>
  \<^verbatim>\<open>frame_id_t\<close> is a signed integer (the source tests \<^verbatim>\<open>frame_id < 0\<close>); no
  arithmetic is done on frame ids, so they are modelled as \<open>int\<close>.  The replacer's only
  data member is the vector \<^verbatim>\<open>unpinned_frames\<close>: front = least recently unpinned.
\<close>

type_synonym frame_id_t = int
type_synonym page_id_t = int

record LRUReplacer =
  unpinned_frames :: "frame_id_t list"

text \<open>The constructor creates an empty vector and only reserves capacity.\<close>

definition new_LRUReplacer :: "nat \<Rightarrow> LRUReplacer" where
  "new_LRUReplacer num_pages = \<lparr>unpinned_frames = []\<rparr>"

text \<open>
  \<^verbatim>\<open>Victim\<close>: false when the vector is empty; otherwise the front element is written to
  the out parameter and erased.  The out parameter and the boolean are one \<open>option\<close>.
\<close>

definition Victim :: "LRUReplacer \<Rightarrow> frame_id_t option \<times> LRUReplacer" where
  "Victim r =
     (case unpinned_frames r of
        [] \<Rightarrow> (None, r)
      | x # xs \<Rightarrow> (Some x, r\<lparr>unpinned_frames := xs\<rparr>))"

text \<open>\<^verbatim>\<open>Pin\<close>: the loop erases the first element equal to the frame and breaks.\<close>

fun Pin_loop :: "frame_id_t list \<Rightarrow> frame_id_t \<Rightarrow> frame_id_t list" where
  "Pin_loop [] frame_id = []"
| "Pin_loop (x # xs) frame_id = (if x = frame_id then xs else x # Pin_loop xs frame_id)"

definition Pin :: "LRUReplacer \<Rightarrow> frame_id_t \<Rightarrow> LRUReplacer" where
  "Pin r frame_id = r\<lparr>unpinned_frames := Pin_loop (unpinned_frames r) frame_id\<rparr>"

text \<open>
  \<^verbatim>\<open>Unpin\<close>: a negative frame id returns at once; the loop returns as soon as it meets
  the frame; otherwise the frame is pushed to the back.
\<close>

fun Unpin_loop :: "frame_id_t list \<Rightarrow> frame_id_t \<Rightarrow> bool" where
  "Unpin_loop [] frame_id = False"
| "Unpin_loop (x # xs) frame_id = (if x = frame_id then True else Unpin_loop xs frame_id)"

definition Unpin :: "LRUReplacer \<Rightarrow> frame_id_t \<Rightarrow> LRUReplacer" where
  "Unpin r frame_id =
     (if frame_id < 0 then r
      else if Unpin_loop (unpinned_frames r) frame_id then r
      else r\<lparr>unpinned_frames := unpinned_frames r @ [frame_id]\<rparr>)"

definition Size :: "LRUReplacer \<Rightarrow> nat" where
  "Size r = length (unpinned_frames r)"

text \<open>Scenario helpers: a sequence of \<^verbatim>\<open>Unpin\<close> calls, and repeated \<^verbatim>\<open>Victim\<close> calls.\<close>

fun Unpin_seq :: "LRUReplacer \<Rightarrow> frame_id_t list \<Rightarrow> LRUReplacer" where
  "Unpin_seq r [] = r"
| "Unpin_seq r (f # fs) = Unpin_seq (Unpin r f) fs"

fun Victim_seq :: "LRUReplacer \<Rightarrow> nat \<Rightarrow> frame_id_t option list" where
  "Victim_seq r 0 = []"
| "Victim_seq r (Suc n) = (case Victim r of (v, r') \<Rightarrow> v # Victim_seq r' n)"

section \<open>B+ tree pages: shared header, comparator, array\<close>

text \<open>
  The header of \<^verbatim>\<open>BPlusTreePage\<close> (page type, size, max size, parent page id, page id) is
  followed by the entry array, which lives in the page's buffer and is addressed by a C++
  \<^verbatim>\<open>int\<close>.  The header fields carry the names of their getters (\<^verbatim>\<open>GetSize()\<close> reads
  \<^verbatim>\<open>size_\<close>, and so on); \<^verbatim>\<open>SetSize\<close> and \<^verbatim>\<open>IncreaseSize\<close> are record updates.  The array
  is modelled as a function from index to entry: slots at and beyond the size exist in
  the buffer and hold whatever was written there last.  Sizes and indices are \<^verbatim>\<open>int\<close> in
  the source and \<open>int\<close> here; every index computed below lies between 0 and the size, so
  no operation can wrap around.
\<close>

datatype IndexPageType = INVALID_INDEX_PAGE | LEAF_PAGE | INTERNAL_PAGE

datatype ExceptionType = OUT_OF_RANGE | INVALID | OUT_OF_MEMORY

record ('k, 'v) BPlusTreePage =
  GetPageType :: IndexPageType
  GetSize :: int
  GetMaxSize :: int
  GetParentPageId :: page_id_t
  GetPageId :: page_id_t
  array :: "int \<Rightarrow> 'k \<times> 'v"

record ('k, 'v) BPlusTreeLeafPage = "('k, 'v) BPlusTreePage" +
  GetNextPageId :: page_id_t

definition INVALID_PAGE_ID :: page_id_t where
  "INVALID_PAGE_ID = - 1"

text \<open>
  The comparator is a parameter of every page operation: a function that returns a
  negative, zero or positive \<^verbatim>\<open>int\<close>.  \<open>comparator_laws\<close> says that it is a three-way
  comparison of a total preorder: swapping the arguments flips the sign, "less" is
  transitive, and keys that compare equal compare alike with every third key.
\<close>

definition comparator_laws :: "('k \<Rightarrow> 'k \<Rightarrow> int) \<Rightarrow> bool" where
  "comparator_laws cmp \<longleftrightarrow>
     (\<forall>a b. sgn (cmp a b) = - sgn (cmp b a)) \<and>
     (\<forall>a b c. cmp a b < 0 \<and> cmp b c < 0 \<longrightarrow> cmp a c < 0) \<and>
     (\<forall>a b c. cmp a b = 0 \<longrightarrow> sgn (cmp a c) = sgn (cmp b c))"

text \<open>The entries in slots \<open>lo, ..., hi - 1\<close>, and strict ascent of their keys.\<close>

definition slots :: "(int \<Rightarrow> 'k \<times> 'v) \<Rightarrow> int \<Rightarrow> int \<Rightarrow> ('k \<times> 'v) list" where
  "slots a lo hi = map a [lo..hi - 1]"

definition ascending :: "('k \<Rightarrow> 'k \<Rightarrow> int) \<Rightarrow> ('k \<times> 'v) list \<Rightarrow> bool" where
  "ascending cmp es = sorted_wrt (\<lambda>x y. cmp (fst x) (fst y) < 0) es"

text \<open>
  \<^verbatim>\<open>std::move(first, last, d_first)\<close> on array slots: element-wise assignment from front
  to back.
\<close>

function std_move :: "(int \<Rightarrow> 'e) \<Rightarrow> int \<Rightarrow> int \<Rightarrow> int \<Rightarrow> (int \<Rightarrow> 'e)" where
  "std_move a first lst d_first =
     (if first < lst then std_move (a(d_first := a first)) (first + 1) lst (d_first + 1)
      else a)"
  by pat_completeness auto
termination
  by (relation "measure (\<lambda>(a, first, lst, d_first). nat (lst - first))") auto

declare std_move.simps [simp del]

section \<open>Internal page (src/storage/page/b\_plus\_tree\_internal\_page.cpp)\<close>

definition Internal_Init ::
  "('k, 'v) BPlusTreePage \<Rightarrow> page_id_t \<Rightarrow> page_id_t \<Rightarrow> int \<Rightarrow> ('k, 'v) BPlusTreePage" where
  "Internal_Init n page_id parent_id max_size =
     n\<lparr>GetPageType := INTERNAL_PAGE, GetSize := 0, GetMaxSize := max_size,
       GetPageId := page_id, GetParentPageId := parent_id\<rparr>"

text \<open>
  The accessors throw \<^verbatim>\<open>Exception(ExceptionType::OUT_OF_RANGE)\<close> for an index outside
  \<open>[0, size)\<close>.  A read returns \<open>Inl\<close> of the exception or \<open>Inr\<close> of the value; a
  mutator returns the exception, if any, together with the node as the call leaves it.
\<close>

definition Internal_KeyAt :: "('k, 'v) BPlusTreePage \<Rightarrow> int \<Rightarrow> ExceptionType + 'k" where
  "Internal_KeyAt n index =
     (if index < 0 \<or> index \<ge> GetSize n then Inl OUT_OF_RANGE else Inr (fst (array n index)))"

definition Internal_SetKeyAt ::
  "('k, 'v) BPlusTreePage \<Rightarrow> int \<Rightarrow> 'k \<Rightarrow> ExceptionType option \<times> ('k, 'v) BPlusTreePage" where
  "Internal_SetKeyAt n index key =
     (if index < 0 \<or> index \<ge> GetSize n then (Some OUT_OF_RANGE, n)
      else (None, n\<lparr>array := (array n)(index := (key, snd (array n index)))\<rparr>))"

definition Internal_ValueAt :: "('k, 'v) BPlusTreePage \<Rightarrow> int \<Rightarrow> ExceptionType + 'v" where
  "Internal_ValueAt n index =
     (if index < 0 \<or> index \<ge> GetSize n then Inl OUT_OF_RANGE else Inr (snd (array n index)))"

text \<open>
  \<^verbatim>\<open>std::lower_bound(first, last, value, compare)\<close> as the C++ library implements it: a
  binary search that halves the remaining length.  Iterators are array indices.
\<close>

function lower_bound_loop :: "(int \<Rightarrow> 'e) \<Rightarrow> int \<Rightarrow> int \<Rightarrow> ('e \<Rightarrow> bool) \<Rightarrow> int" where
  "lower_bound_loop a first len compare =
     (if 0 < len then
        (let half = len div 2; middle = first + half in
         if compare (a middle) then lower_bound_loop a (middle + 1) (len - half - 1) compare
         else lower_bound_loop a first half compare)
      else first)"
  by pat_completeness auto
termination
  by (relation "measure (\<lambda>(a, first, len, compare). nat len)") auto

declare lower_bound_loop.simps [simp del]

definition lower_bound :: "(int \<Rightarrow> 'e) \<Rightarrow> int \<Rightarrow> int \<Rightarrow> ('e \<Rightarrow> bool) \<Rightarrow> int" where
  "lower_bound a first lst compare = lower_bound_loop a first (lst - first) compare"

text \<open>
  \<^verbatim>\<open>Lookup\<close> searches slots \<open>[1, size)\<close>.  The range \<open>[array + 1, array + size)\<close> is a
  valid iterator range only when \<open>1 \<le> size\<close>.
\<close>

definition Internal_Lookup ::
  "('k, 'v) BPlusTreePage \<Rightarrow> 'k \<Rightarrow> ('k \<Rightarrow> 'k \<Rightarrow> int) \<Rightarrow> ExceptionType + 'v" where
  "Internal_Lookup n key comparator =
     (let k_it = lower_bound (array n) 1 (GetSize n) (\<lambda>pair. comparator (fst pair) key < 0) in
      if k_it = GetSize n then Internal_ValueAt n (GetSize n - 1)
      else if comparator (fst (array n k_it)) key = 0 then Inr (snd (array n k_it))
      else Inr (snd (array n (k_it - 1))))"

definition Internal_PopulateNewRoot ::
  "('k, 'v) BPlusTreePage \<Rightarrow> 'v \<Rightarrow> 'k \<Rightarrow> 'v \<Rightarrow> ('k, 'v) BPlusTreePage" where
  "Internal_PopulateNewRoot n old_value new_key new_value =
     n\<lparr>array := (array n)(0 := (fst (array n 0), old_value), 1 := (new_key, new_value)),
       GetSize := 2\<rparr>"

definition Internal_Remove ::
  "('k, 'v) BPlusTreePage \<Rightarrow> int \<Rightarrow> ExceptionType option \<times> ('k, 'v) BPlusTreePage" where
  "Internal_Remove n index =
     (if index < 0 \<or> index \<ge> GetSize n then (Some OUT_OF_RANGE, n)
      else (None, n\<lparr>array := std_move (array n) (index + 1) (GetSize n) index,
                     GetSize := GetSize n - 1\<rparr>))"

section \<open>Leaf page (src/storage/page/b\_plus\_tree\_leaf\_page.cpp)\<close>

definition Leaf_Init ::
  "('k, 'v) BPlusTreeLeafPage \<Rightarrow> page_id_t \<Rightarrow> page_id_t \<Rightarrow> int \<Rightarrow> ('k, 'v) BPlusTreeLeafPage" where
  "Leaf_Init n page_id parent_id max_size =
     n\<lparr>GetPageType := LEAF_PAGE, GetSize := 0, GetPageId := page_id,
       GetParentPageId := parent_id, GetMaxSize := max_size,
       GetNextPageId := INVALID_PAGE_ID\<rparr>"

text \<open>\<^verbatim>\<open>KeyIndex\<close>: the loop on \<open>left\<close> and \<open>right\<close>, started at 0 and \<open>size\<close>.\<close>

function KeyIndex_loop ::
  "(int \<Rightarrow> 'k \<times> 'v) \<Rightarrow> 'k \<Rightarrow> ('k \<Rightarrow> 'k \<Rightarrow> int) \<Rightarrow> int \<Rightarrow> int \<Rightarrow> int" where
  "KeyIndex_loop a key comparator left right =
     (if left < right then
        (let mid = left + (right - left) div 2;
             comp_result = comparator (fst (a mid)) key in
         if comp_result < 0 then KeyIndex_loop a key comparator (mid + 1) right
         else KeyIndex_loop a key comparator left mid)
      else left)"
  by pat_completeness auto
termination
  by (relation "measure (\<lambda>(a, key, comparator, left, right). nat (right - left))") auto

declare KeyIndex_loop.simps [simp del]

definition Leaf_KeyIndex ::
  "('k, 'v) BPlusTreeLeafPage \<Rightarrow> 'k \<Rightarrow> ('k \<Rightarrow> 'k \<Rightarrow> int) \<Rightarrow> int" where
  "Leaf_KeyIndex n key comparator = KeyIndex_loop (array n) key comparator 0 (GetSize n)"

text \<open>
  The leaf accessors have no \<^verbatim>\<open>throw\<close>.  For an index out of range \<^verbatim>\<open>KeyAt\<close> returns a
  value-initialised key, and \<^verbatim>\<open>GetItem\<close> returns slot 0, or a value-initialised static
  item when the page is empty.  Their results have the type of the internal accessors'
  results, so that the two can be compared; they are always \<open>Inr\<close>.  The
  value-initialised item \<^verbatim>\<open>MappingType{}\<close> is the parameter \<open>dummy_item\<close>; its first
  component is \<^verbatim>\<open>KeyType{}\<close>.
\<close>

definition Leaf_KeyAt ::
  "'k \<times> 'v \<Rightarrow> ('k, 'v) BPlusTreeLeafPage \<Rightarrow> int \<Rightarrow> ExceptionType + 'k" where
  "Leaf_KeyAt dummy_item n index =
     (if index < 0 \<or> index \<ge> GetSize n then Inr (fst dummy_item)
      else Inr (fst (array n index)))"

definition Leaf_GetItem ::
  "'k \<times> 'v \<Rightarrow> ('k, 'v) BPlusTreeLeafPage \<Rightarrow> int \<Rightarrow> ExceptionType + 'k \<times> 'v" where
  "Leaf_GetItem dummy_item n index =
     (if index < 0 \<or> index \<ge> GetSize n then
        (if GetSize n > 0 then Inr (array n 0) else Inr dummy_item)
      else Inr (array n index))"

text \<open>The loop \<^verbatim>\<open>for (i = from; i > index; i--) array[i] = array[i - 1]\<close>.\<close>

function shift_right :: "(int \<Rightarrow> 'e) \<Rightarrow> int \<Rightarrow> int \<Rightarrow> (int \<Rightarrow> 'e)" where
  "shift_right a i index =
     (if i > index then shift_right (a(i := a (i - 1))) (i - 1) index else a)"
  by pat_completeness auto
termination
  by (relation "measure (\<lambda>(a, i, index). nat (i - index))") auto

declare shift_right.simps [simp del]

text \<open>The loop \<^verbatim>\<open>for (i = from; i < size - 1; i++) array[i] = array[i + 1]\<close>.\<close>

function shift_left :: "(int \<Rightarrow> 'e) \<Rightarrow> int \<Rightarrow> int \<Rightarrow> (int \<Rightarrow> 'e)" where
  "shift_left a i sz =
     (if i < sz - 1 then shift_left (a(i := a (i + 1))) (i + 1) sz else a)"
  by pat_completeness auto
termination
  by (relation "measure (\<lambda>(a, i, sz). nat (sz - i))") auto

declare shift_left.simps [simp del]

definition Leaf_Insert ::
  "('k, 'v) BPlusTreeLeafPage \<Rightarrow> 'k \<Rightarrow> 'v \<Rightarrow> ('k \<Rightarrow> 'k \<Rightarrow> int)
     \<Rightarrow> ('k, 'v) BPlusTreeLeafPage \<times> int" where
  "Leaf_Insert n key value comparator =
     (let index = Leaf_KeyIndex n key comparator in
      if index < GetSize n \<and> comparator (fst (array n index)) key = 0 then (n, GetSize n)
      else if GetSize n \<ge> GetMaxSize n then (n, GetSize n)
      else
        (let a = shift_right (array n) (GetSize n) index;
             n' = n\<lparr>array := a(index := (key, value)), GetSize := GetSize n + 1\<rparr>
         in (n', GetSize n')))"

definition Leaf_CopyLastFrom ::
  "('k, 'v) BPlusTreeLeafPage \<Rightarrow> 'k \<times> 'v \<Rightarrow> ('k, 'v) BPlusTreeLeafPage" where
  "Leaf_CopyLastFrom n item =
     (let current_size = GetSize n in
      if current_size \<ge> GetMaxSize n then n
      else n\<lparr>array := (array n)(current_size := item), GetSize := GetSize n + 1\<rparr>)"

definition Leaf_CopyFirstFrom ::
  "('k, 'v) BPlusTreeLeafPage \<Rightarrow> 'k \<times> 'v \<Rightarrow> ('k, 'v) BPlusTreeLeafPage" where
  "Leaf_CopyFirstFrom n item =
     (let current_size = GetSize n in
      if current_size \<ge> GetMaxSize n then n
      else n\<lparr>array := (shift_right (array n) current_size 0)(0 := item),
             GetSize := GetSize n + 1\<rparr>)"

text \<open>
  The two moves act on this page and on the recipient, two different pages; both are
  returned, this page first.
\<close>

definition Leaf_MoveFirstToEndOf ::
  "('k, 'v) BPlusTreeLeafPage \<Rightarrow> ('k, 'v) BPlusTreeLeafPage
     \<Rightarrow> ('k, 'v) BPlusTreeLeafPage \<times> ('k, 'v) BPlusTreeLeafPage" where
  "Leaf_MoveFirstToEndOf this recipient =
     (if GetSize this = 0 then (this, recipient)
      else
        (let first_item = array this 0;
             this' = this\<lparr>array := shift_left (array this) 0 (GetSize this),
                         GetSize := GetSize this - 1\<rparr>
         in (this', Leaf_CopyLastFrom recipient first_item)))"

definition Leaf_MoveLastToFrontOf ::
  "('k, 'v) BPlusTreeLeafPage \<Rightarrow> ('k, 'v) BPlusTreeLeafPage
     \<Rightarrow> ('k, 'v) BPlusTreeLeafPage \<times> ('k, 'v) BPlusTreeLeafPage" where
  "Leaf_MoveLastToFrontOf this recipient =
     (if GetSize this = 0 then (this, recipient)
      else
        (let last_index = GetSize this - 1;
             last_item = array this last_index;
             this' = this\<lparr>GetSize := GetSize this - 1\<rparr>
         in (this', Leaf_CopyFirstFrom recipient last_item)))"

section \<open>Buffer pool manager (src/buffer/buffer\_pool\_manager.cpp)\<close>

text \<open>
  A frame's \<^verbatim>\<open>Page\<close>: the buffer and its metadata.  The buffer's content is of a type
  \<open>'d\<close> with a zero, the content after \<^verbatim>\<open>ResetMemory\<close>.
\<close>

record 'd Page =
  data :: 'd
  page_id :: page_id_t
  pin_count :: int
  is_dirty :: bool

definition new_Page :: "'d::zero Page" where
  "new_Page = \<lparr>data = 0, page_id = INVALID_PAGE_ID, pin_count = 0, is_dirty = False\<rparr>"

text \<open>
  Modelled from the spec: the Disk Manager, whose code is not among the sources.  It
  holds the file as an array of pages indexed by page id; \<^verbatim>\<open>read_page\<close> returns a page's
  content, \<^verbatim>\<open>write_page\<close> persists a buffer, \<^verbatim>\<open>allocate_page\<close> returns a fresh identifier
  and \<^verbatim>\<open>deallocate_page\<close> reclaims nothing.  The model also records, in call order, the
  page ids passed to \<^verbatim>\<open>write_page\<close> and to \<^verbatim>\<open>deallocate_page\<close>, so that a call is visible
  in the state.
\<close>

record 'd DiskManager =
  disk :: "page_id_t \<Rightarrow> 'd"
  next_page_id :: page_id_t
  written :: "page_id_t list"
  deallocated :: "page_id_t list"

definition ReadPage :: "'d DiskManager \<Rightarrow> page_id_t \<Rightarrow> 'd" where
  "ReadPage dm p = disk dm p"

definition WritePage :: "'d DiskManager \<Rightarrow> page_id_t \<Rightarrow> 'd \<Rightarrow> 'd DiskManager" where
  "WritePage dm p d = dm\<lparr>disk := (disk dm)(p := d), written := written dm @ [p]\<rparr>"

definition AllocatePage :: "'d DiskManager \<Rightarrow> page_id_t \<times> 'd DiskManager" where
  "AllocatePage dm = (next_page_id dm, dm\<lparr>next_page_id := next_page_id dm + 1\<rparr>)"

definition DeallocatePage :: "'d DiskManager \<Rightarrow> page_id_t \<Rightarrow> 'd DiskManager" where
  "DeallocatePage dm p = dm\<lparr>deallocated := deallocated dm @ [p]\<rparr>"

text \<open>
  The manager: the frame array \<^verbatim>\<open>pages_\<close> indexed by frame id, the page table (an
  \<^verbatim>\<open>unordered_map\<close>), the replacer, the free list and the disk manager it points to.
  The latch is not modelled: every operation runs from lock to unlock.
\<close>

record 'd BufferPoolManager =
  pool_size :: nat
  pages :: "frame_id_t \<Rightarrow> 'd Page"
  page_table :: "page_id_t \<rightharpoonup> frame_id_t"
  replacer :: LRUReplacer
  free_list :: "frame_id_t list"
  disk_manager :: "'d DiskManager"

definition new_BufferPoolManager :: "nat \<Rightarrow> 'd DiskManager \<Rightarrow> ('d::zero) BufferPoolManager" where
  "new_BufferPoolManager n dm =
     \<lparr>pool_size = n, pages = (\<lambda>f. new_Page), page_table = Map.empty,
      replacer = new_LRUReplacer n, free_list = map int [0..<n], disk_manager = dm\<rparr>"

text \<open>
  \<^verbatim>\<open>unordered_map::insert\<close> keeps an existing entry.  Dereferencing or erasing the iterator
  \<^verbatim>\<open>page_table_.end()\<close>, which \<^verbatim>\<open>find\<close> returns for an absent key, is undefined in C++;
  the model stops there with the fault \<open>END_ITERATOR\<close>.
\<close>

datatype fault = END_ITERATOR

definition umap_insert :: "('a \<rightharpoonup> 'b) \<Rightarrow> 'a \<Rightarrow> 'b \<Rightarrow> ('a \<rightharpoonup> 'b)" where
  "umap_insert m k v = (if m k = None then m(k \<mapsto> v) else m)"

text \<open>\<^verbatim>\<open>FetchPageImpl\<close> returns the frame of the page it hands out (\<open>None\<close> for \<^verbatim>\<open>nullptr\<close>).\<close>

definition FetchPageImpl ::
  "('d::zero) BufferPoolManager \<Rightarrow> page_id_t
     \<Rightarrow> fault + (frame_id_t option \<times> 'd BufferPoolManager)" where
  "FetchPageImpl s p =
     (case page_table s p of
        Some f_id \<Rightarrow>
          (let retPage = (pages s f_id)\<lparr>pin_count := pin_count (pages s f_id) + 1\<rparr>
           in Inr (Some f_id,
                   s\<lparr>pages := (pages s)(f_id := retPage),
                     replacer := Pin (replacer s) f_id\<rparr>))
      | None \<Rightarrow>
          (case free_list s of
             page_frame_id # rest \<Rightarrow>
               (let replPage = (pages s page_frame_id)
                      \<lparr>page_id := p, pin_count := 1, is_dirty := False,
                       data := ReadPage (disk_manager s) p\<rparr>
                in Inr (Some page_frame_id,
                        s\<lparr>free_list := rest,
                          page_table := umap_insert (page_table s) p page_frame_id,
                          pages := (pages s)(page_frame_id := replPage),
                          replacer := Pin (replacer s) page_frame_id\<rparr>))
           | [] \<Rightarrow>
               (case Victim (replacer s) of
                  (None, r) \<Rightarrow> Inr (None, s\<lparr>replacer := r\<rparr>)
                | (Some page_frame_id, r) \<Rightarrow>
                    (let old = pages s page_frame_id;
                         dm = (if is_dirty old
                               then WritePage (disk_manager s) (page_id old) (data old)
                               else disk_manager s)
                     in case page_table s (page_id old) of
                          None \<Rightarrow> Inl END_ITERATOR
                        | Some f \<Rightarrow>
                            (let pt = umap_insert ((page_table s)(page_id old := None))
                                        p page_frame_id;
                                 replPage = old\<lparr>page_id := p, pin_count := 1,
                                               is_dirty := False, data := ReadPage dm p\<rparr>
                             in Inr (Some page_frame_id,
                                     s\<lparr>replacer := Pin r page_frame_id,
                                       disk_manager := dm,
                                       page_table := pt,
                                       pages := (pages s)(page_frame_id := replPage)\<rparr>))))))"

text \<open>
  \<^verbatim>\<open>UnpinPageImpl\<close> reads \<^verbatim>\<open>page_table_.find(page_id)->second\<close> without comparing the
  iterator with \<^verbatim>\<open>end()\<close>; it never changes \<^verbatim>\<open>pin_count_\<close>.
\<close>

definition UnpinPageImpl ::
  "'d BufferPoolManager \<Rightarrow> page_id_t \<Rightarrow> bool \<Rightarrow> fault + (bool \<times> 'd BufferPoolManager)" where
  "UnpinPageImpl s p dirty =
     (case page_table s p of
        None \<Rightarrow> Inl END_ITERATOR
      | Some unpinned_frame_id \<Rightarrow>
          (let unpinned_page = pages s unpinned_frame_id in
           if pin_count unpinned_page \<le> 0 then Inr (False, s)
           else
             (let victim_frame = unpinned_frame_id;
                  s1 = s\<lparr>replacer := Unpin (replacer s) victim_frame\<rparr>
              in Inr (True,
                      if dirty
                      then s1\<lparr>pages := (pages s1)
                                (unpinned_frame_id := unpinned_page\<lparr>is_dirty := True\<rparr>)\<rparr>
                      else s1))))"

text \<open>\<^verbatim>\<open>FlushPageImpl\<close> locks, unlocks and returns false.\<close>

definition FlushPageImpl ::
  "'d BufferPoolManager \<Rightarrow> page_id_t \<Rightarrow> bool \<times> 'd BufferPoolManager" where
  "FlushPageImpl s p = (False, s)"

text \<open>
  \<^verbatim>\<open>NewPageImpl\<close> returns the frame it hands out and the value it wrote to the output
  parameter \<^verbatim>\<open>*page_id\<close> (\<open>None\<close> when it wrote nothing).
\<close>

definition NewPageImpl ::
  "('d::zero) BufferPoolManager
     \<Rightarrow> frame_id_t option \<times> page_id_t option \<times> 'd BufferPoolManager" where
  "NewPageImpl s =
     (if free_list s = [] \<and> Size (replacer s) = 0 then (None, None, s)
      else
        (case AllocatePage (disk_manager s) of
           (new_page_id, dm0) \<Rightarrow>
             (let s0 = s\<lparr>disk_manager := dm0\<rparr>;
                  target =
                    (case free_list s0 of
                       frame_id # rest \<Rightarrow> Some (frame_id, s0\<lparr>free_list := rest\<rparr>)
                     | [] \<Rightarrow>
                         (case Victim (replacer s0) of
                            (None, r) \<Rightarrow> None
                          | (Some frame_id, r) \<Rightarrow>
                              (let page = pages s0 frame_id;
                                   dm = (if is_dirty page
                                         then WritePage dm0 (page_id page) (data page)
                                         else dm0)
                               in Some (frame_id,
                                        s0\<lparr>replacer := r, disk_manager := dm,
                                          page_table := (page_table s0)(page_id page := None)\<rparr>))))
              in case target of
                   None \<Rightarrow> (None, Some new_page_id, s0)
                 | Some (frame_id, s1) \<Rightarrow>
                     (let page = (pages s1 frame_id)
                            \<lparr>data := 0, page_id := new_page_id, pin_count := 1,
                             is_dirty := False\<rparr>
                      in (Some frame_id, Some new_page_id,
                          s1\<lparr>pages := (pages s1)(frame_id := page),
                             page_table := (page_table s1)(new_page_id \<mapsto> frame_id),
                             replacer := Pin (replacer s1) frame_id\<rparr>)))))"

text \<open>\<^verbatim>\<open>DeletePageImpl\<close> returns false and \<^verbatim>\<open>FlushAllPagesImpl\<close> has an empty body.\<close>

definition DeletePageImpl ::
  "'d BufferPoolManager \<Rightarrow> page_id_t \<Rightarrow> bool \<times> 'd BufferPoolManager" where
  "DeletePageImpl s p = (False, s)"

definition FlushAllPagesImpl :: "'d BufferPoolManager \<Rightarrow> 'd BufferPoolManager" where
  "FlushAllPagesImpl s = s"

text \<open>
  The replacer invariant at one frame: the frame is in the replacer exactly when its pin
  count is 0.
\<close>

definition replacer_agrees :: "'d BufferPoolManager \<Rightarrow> frame_id_t \<Rightarrow> bool" where
  "replacer_agrees s f =
     ((f \<in> set (unpinned_frames (replacer s))) = (pin_count (pages s f) = 0))"

text \<open>An empty disk, and the pool of two frames over it that the examples start from.\<close>

definition empty_disk :: "nat DiskManager" where
  "empty_disk = \<lparr>disk = (\<lambda>p. 0), next_page_id = 0, written = [], deallocated = []\<rparr>"

definition pool2 :: "nat BufferPoolManager" where
  "pool2 = new_BufferPoolManager 2 empty_disk"

text \<open>
  The pool after \<^verbatim>\<open>NewPage\<close> (page 0 sits in frame 0, pinned once); after one more
  \<^verbatim>\<open>FetchPage(0)\<close> (pinned twice); and after \<^verbatim>\<open>NewPage\<close> and \<^verbatim>\<open>UnpinPage(0, true)\<close>.
\<close>

definition pool2_new :: "nat BufferPoolManager" where
  "pool2_new = snd (snd (NewPageImpl pool2))"

definition pool2_fetched :: "nat BufferPoolManager" where
  "pool2_fetched = (case FetchPageImpl pool2_new 0 of Inr (f, s) \<Rightarrow> s | Inl e \<Rightarrow> pool2_new)"

definition pool2_dirty :: "nat BufferPoolManager" where
  "pool2_dirty = (case UnpinPageImpl pool2_new 0 True of Inr (b, s) \<Rightarrow> s | Inl e \<Rightarrow> pool2_new)"

section \<open>Specification predicates for the searches\<close>

text \<open>
  A predicate on entries partitions the slots \<open>[lo, hi)\<close> when no slot that satisfies it
  follows one that does not.  \<open>lb_post\<close> is what a lower-bound search must return then:
  the first slot of the range that does not satisfy the predicate, or \<open>hi\<close>.
\<close>

definition partitioned :: "(int \<Rightarrow> 'e) \<Rightarrow> int \<Rightarrow> int \<Rightarrow> ('e \<Rightarrow> bool) \<Rightarrow> bool" where
  "partitioned a lo hi P \<longleftrightarrow> (\<forall>i j. lo \<le> i \<and> i < j \<and> j < hi \<and> P (a j) \<longrightarrow> P (a i))"

definition lb_post :: "(int \<Rightarrow> 'e) \<Rightarrow> int \<Rightarrow> int \<Rightarrow> ('e \<Rightarrow> bool) \<Rightarrow> int \<Rightarrow> bool" where
  "lb_post a lo hi P r \<longleftrightarrow>
     lo \<le> r \<and> r \<le> hi \<and> (\<forall>i. lo \<le> i \<and> i < r \<longrightarrow> P (a i)) \<and>
     (\<forall>i. r \<le> i \<and> i < hi \<longrightarrow> \<not> P (a i))"

section \<open>Example comparator and pages\<close>

text \<open>
  A three-way comparison of integer keys, and small pages over integer keys and values:
  an internal page with children 100, 101, 102 and separator keys 10 and 20, and leaf
  pages with room for four entries.
\<close>

definition icmp :: "int \<Rightarrow> int \<Rightarrow> int" where
  "icmp a b = (if a < b then - 1 else if a = b then 0 else 1)"

definition internal3 :: "(int, int) BPlusTreePage" where
  "internal3 =
     \<lparr>GetPageType = INTERNAL_PAGE, GetSize = 3, GetMaxSize = 4,
      GetParentPageId = INVALID_PAGE_ID, GetPageId = 7,
      array = (\<lambda>i. if i = 0 then (0, 100) else if i = 1 then (10, 101)
                    else if i = 2 then (20, 102) else (0, 0))\<rparr>"

definition leaf_of :: "int \<Rightarrow> (int \<Rightarrow> int \<times> int) \<Rightarrow> (int, int) BPlusTreeLeafPage" where
  "leaf_of sz a =
     \<lparr>GetPageType = LEAF_PAGE, GetSize = sz, GetMaxSize = 4,
      GetParentPageId = INVALID_PAGE_ID, GetPageId = 3, array = a,
      GetNextPageId = INVALID_PAGE_ID\<rparr>"

definition leaf2 :: "(int, int) BPlusTreeLeafPage" where
  "leaf2 = leaf_of 2 (\<lambda>i. if i = 0 then (10, 1) else if i = 1 then (30, 3) else (0, 0))"

definition leaf4 :: "(int, int) BPlusTreeLeafPage" where
  "leaf4 = leaf_of 4 (\<lambda>i. if i = 0 then (40, 4) else if i = 1 then (50, 5)
                          else if i = 2 then (60, 6) else if i = 3 then (70, 7) else (0, 0))"

section \<open>Properties of the replacer\<close>

lemma Unpin_loop_mem: "Unpin_loop xs f = (f \<in> set xs)"
  by (induction xs) auto

text \<open>
  Claim C5.  \<^verbatim>\<open>Unpin\<close> of a frame that the replacer already holds returns the replacer
  unchanged, so the frame keeps its position.  Consequently, for distinct frame
  identifiers A, B, C (frame identifiers are nonnegative), unpinning A, B, C into an empty
  replacer with one more \<^verbatim>\<open>Unpin\<close> of A after A, after B or after C, makes four
  \<^verbatim>\<open>Victim\<close> calls return A, B, C and then nothing.
\<close>

theorem Unpin_present_unchanged_lru_order:
  "(f \<in> set (unpinned_frames r) \<longrightarrow> Unpin r f = r) \<and>
   (0 \<le> a \<and> 0 \<le> b \<and> 0 \<le> c \<and> distinct [a, b, c] \<longrightarrow>
      (\<forall>fs \<in> {[a, a, b, c], [a, b, a, c], [a, b, c, a]}.
         Victim_seq (Unpin_seq (new_LRUReplacer n) fs) 4 = [Some a, Some b, Some c, None]))"
proof (intro conjI impI)
  assume "f \<in> set (unpinned_frames r)"
  then show "Unpin r f = r"
    by (simp add: Unpin_def Unpin_loop_mem)
next
  assume "0 \<le> a \<and> 0 \<le> b \<and> 0 \<le> c \<and> distinct [a, b, c]"
  then show "\<forall>fs \<in> {[a, a, b, c], [a, b, a, c], [a, b, c, a]}.
         Victim_seq (Unpin_seq (new_LRUReplacer n) fs) 4 = [Some a, Some b, Some c, None]"
    by (simp add: Unpin_def Victim_def new_LRUReplacer_def numeral_Bit0 eval_nat_numeral)
qed

theorem Unpin_present_unchanged_lru_order_witness:
  "7 \<in> set (unpinned_frames \<lparr>unpinned_frames = [5, 7, 9]\<rparr>) \<and>
   Unpin \<lparr>unpinned_frames = [5, 7, 9]\<rparr> 7 = \<lparr>unpinned_frames = [5, 7, 9]\<rparr> \<and>
   distinct [2, 0, 1 :: int] \<and>
   Victim_seq (Unpin_seq (new_LRUReplacer 3) [2, 0, 2, 1]) 4 = [Some 2, Some 0, Some 1, None]"
  using Unpin_present_unchanged_lru_order [of 7 "\<lparr>unpinned_frames = [5, 7, 9]\<rparr>" 2 0 1 3]
  by simp

section \<open>Slots, ascent and the binary searches\<close>

lemma slots_nth: "lo \<le> i \<Longrightarrow> i < hi \<Longrightarrow> slots a lo hi ! nat (i - lo) = a i"
  unfolding slots_def by (subst nth_map) (simp_all add: nth_upto)

lemma slots_length: "length (slots a lo hi) = nat (hi - lo)"
  unfolding slots_def by simp

lemma ascending_slots_iff:
  "ascending cmp (slots a lo hi) \<longleftrightarrow>
     (\<forall>i j. lo \<le> i \<and> i < j \<and> j < hi \<longrightarrow> cmp (fst (a i)) (fst (a j)) < 0)"
proof
  assume asc: "ascending cmp (slots a lo hi)"
  show "\<forall>i j. lo \<le> i \<and> i < j \<and> j < hi \<longrightarrow> cmp (fst (a i)) (fst (a j)) < 0"
  proof (intro allI impI)
    fix i j assume ij: "lo \<le> i \<and> i < j \<and> j < hi"
    have "nat (i - lo) < nat (j - lo)" "nat (j - lo) < length (slots a lo hi)"
      using ij by (simp_all add: slots_length)
    with asc have "cmp (fst (slots a lo hi ! nat (i - lo))) (fst (slots a lo hi ! nat (j - lo))) < 0"
      unfolding ascending_def sorted_wrt_iff_nth_less by blast
    then show "cmp (fst (a i)) (fst (a j)) < 0"
      using ij by (simp add: slots_nth)
  qed
next
  assume idx: "\<forall>i j. lo \<le> i \<and> i < j \<and> j < hi \<longrightarrow> cmp (fst (a i)) (fst (a j)) < 0"
  show "ascending cmp (slots a lo hi)"
    unfolding ascending_def sorted_wrt_iff_nth_less
  proof (intro allI impI)
    fix i j :: nat assume ij: "i < j" "j < length (slots a lo hi)"
    then have b: "lo + int j < hi" by (simp add: slots_length)
    have "slots a lo hi ! nat ((lo + int i) - lo) = a (lo + int i)"
      "slots a lo hi ! nat ((lo + int j) - lo) = a (lo + int j)"
      using ij b by (simp_all only: slots_nth [of lo _ hi a])
    then have "slots a lo hi ! i = a (lo + int i)" "slots a lo hi ! j = a (lo + int j)" by simp_all
    with idx ij b show "cmp (fst (slots a lo hi ! i)) (fst (slots a lo hi ! j)) < 0"
      by simp
  qed
qed

lemma partitioned_sub:
  assumes "partitioned a lo hi P" "lo \<le> lo'" "hi' \<le> hi"
  shows "partitioned a lo' hi' P"
  unfolding partitioned_def
proof (intro allI impI)
  fix i j assume "lo' \<le> i \<and> i < j \<and> j < hi' \<and> P (a j)"
  with assms(2,3) have "lo \<le> i \<and> i < j \<and> j < hi \<and> P (a j)" by simp
  with assms(1) show "P (a i)" unfolding partitioned_def by blast
qed

lemma lower_bound_loop_spec:
  "0 \<le> len \<Longrightarrow>
   partitioned a first (first + len) P \<Longrightarrow>
   lb_post a first (first + len) P (lower_bound_loop a first len P)"
proof (induction a first len P rule: lower_bound_loop.induct)
  case (1 a first len P)
  note part = "1.prems"(2)
  show ?case
  proof (cases "0 < len")
    case False
    then have "lower_bound_loop a first len P = first"
      by (subst lower_bound_loop.simps) simp
    with False "1.prems"(1) show ?thesis by (auto simp add: lb_post_def)
  next
    case True
    define half where "half = len div 2"
    define middle where "middle = first + half"
    have h: "0 \<le> half" "half < len" using True by (simp_all add: half_def)
    show ?thesis
    proof (cases "P (a middle)")
      case pm: True
      have eq: "lower_bound_loop a first len P = lower_bound_loop a (middle + 1) (len - half - 1) P"
        using True pm by (subst lower_bound_loop.simps) (simp add: half_def middle_def Let_def)
      have "lb_post a (middle + 1) (middle + 1 + (len - half - 1)) P
              (lower_bound_loop a (middle + 1) (len - half - 1) P)"
      proof (rule "1.IH"(1)[OF True half_def middle_def pm])
        show "0 \<le> len - half - 1" using h by simp
        show "partitioned a (middle + 1) (middle + 1 + (len - half - 1)) P"
          using part h by (intro partitioned_sub [OF part]) (simp_all add: middle_def)
      qed
      then have ih: "lb_post a (middle + 1) (first + len) P (lower_bound_loop a first len P)"
        by (simp add: eq middle_def)
      have below: "P (a i)" if "first \<le> i" "i \<le> middle" for i
      proof (cases "i = middle")
        case True with pm show ?thesis by simp
      next
        case False
        with that h part pm have "first \<le> i \<and> i < middle \<and> middle < first + len \<and> P (a middle)"
          by (simp add: middle_def)
        with part show ?thesis unfolding partitioned_def by blast
      qed
      show ?thesis
        unfolding lb_post_def
      proof (intro conjI allI impI)
        show "first \<le> lower_bound_loop a first len P"
          using ih h by (simp add: lb_post_def middle_def)
        show "lower_bound_loop a first len P \<le> first + len"
          using ih by (simp add: lb_post_def)
        show "P (a i)" if "first \<le> i \<and> i < lower_bound_loop a first len P" for i
        proof (cases "i \<le> middle")
          case True with that below show ?thesis by simp
        next
          case False
          with that ih show ?thesis by (simp add: lb_post_def)
        qed
        show "\<not> P (a i)" if "lower_bound_loop a first len P \<le> i \<and> i < first + len" for i
          using that ih by (simp add: lb_post_def)
      qed
    next
      case pm: False
      have eq: "lower_bound_loop a first len P = lower_bound_loop a first half P"
        using True pm by (subst lower_bound_loop.simps) (simp add: half_def middle_def Let_def)
      have "lb_post a first (first + half) P (lower_bound_loop a first half P)"
      proof (rule "1.IH"(2)[OF True half_def middle_def pm])
        show "0 \<le> half" by (rule h)
        show "partitioned a first (first + half) P"
          using h by (intro partitioned_sub [OF part]) simp_all
      qed
      then have ih: "lb_post a first middle P (lower_bound_loop a first len P)"
        by (simp add: eq middle_def)
      have above: "\<not> P (a i)" if "middle \<le> i" "i < first + len" for i
      proof (cases "i = middle")
        case True with pm show ?thesis by simp
      next
        case False
        show ?thesis
        proof
          assume "P (a i)"
          with that False h have "first \<le> middle \<and> middle < i \<and> i < first + len \<and> P (a i)"
            by (simp add: middle_def)
          with part have "P (a middle)" unfolding partitioned_def by blast
          with pm show False by simp
        qed
      qed
      show ?thesis
        unfolding lb_post_def
      proof (intro conjI allI impI)
        show "first \<le> lower_bound_loop a first len P"
          using ih by (simp add: lb_post_def)
        show "lower_bound_loop a first len P \<le> first + len"
          using ih h by (simp add: lb_post_def middle_def)
        show "P (a i)" if "first \<le> i \<and> i < lower_bound_loop a first len P" for i
          using that ih by (simp add: lb_post_def)
        show "\<not> P (a i)" if "lower_bound_loop a first len P \<le> i \<and> i < first + len" for i
        proof (cases "middle \<le> i")
          case True with that above show ?thesis by simp
        next
          case False
          with that ih show ?thesis by (simp add: lb_post_def)
        qed
      qed
    qed
  qed
qed

section \<open>The comparator on ascending slots\<close>

lemma cmp_flip: "comparator_laws cmp \<Longrightarrow> (cmp a b < 0) = (0 < cmp b a)"
proof -
  assume "comparator_laws cmp"
  then have "sgn (cmp a b) = - sgn (cmp b a)" unfolding comparator_laws_def by blast
  then show ?thesis by (simp add: sgn_if split: if_splits)
qed

lemma cmp_trans: "comparator_laws cmp \<Longrightarrow> cmp a b < 0 \<Longrightarrow> cmp b c < 0 \<Longrightarrow> cmp a c < 0"
  unfolding comparator_laws_def by blast

lemma cmp_eq_right: "comparator_laws cmp \<Longrightarrow> cmp b c = 0 \<Longrightarrow> (cmp a b < 0) = (cmp a c < 0)"
proof -
  assume l: "comparator_laws cmp" and e: "cmp b c = 0"
  from l e have "sgn (cmp b a) = sgn (cmp c a)" unfolding comparator_laws_def by blast
  then have "(0 < cmp b a) = (0 < cmp c a)" by (simp add: sgn_if split: if_splits)
  then show ?thesis using cmp_flip [OF l, of a b] cmp_flip [OF l, of a c] by simp
qed

lemma cmp_eq_left: "comparator_laws cmp \<Longrightarrow> cmp b c = 0 \<Longrightarrow> (cmp b a < 0) = (cmp c a < 0)"
proof -
  assume l: "comparator_laws cmp" and e: "cmp b c = 0"
  from l e have "sgn (cmp b a) = sgn (cmp c a)" unfolding comparator_laws_def by blast
  then show ?thesis by (simp add: sgn_if split: if_splits)
qed

lemma lb_post_bounds: "lb_post a lo hi P r \<Longrightarrow> lo \<le> r \<and> r \<le> hi"
  by (simp add: lb_post_def)

lemma lb_post_below: "lb_post a lo hi P r \<Longrightarrow> lo \<le> i \<Longrightarrow> i < r \<Longrightarrow> P (a i)"
  by (simp add: lb_post_def)

lemma lb_post_above: "lb_post a lo hi P r \<Longrightarrow> r \<le> i \<Longrightarrow> i < hi \<Longrightarrow> \<not> P (a i)"
  by (simp add: lb_post_def)

lemma ascending_slotsD:
  "ascending cmp (slots a lo hi) \<Longrightarrow> lo \<le> i \<Longrightarrow> i < j \<Longrightarrow> j < hi \<Longrightarrow>
   cmp (fst (a i)) (fst (a j)) < 0"
  by (simp add: ascending_slots_iff)

lemma ascending_partitioned:
  assumes l: "comparator_laws cmp" and asc: "ascending cmp (slots a lo hi)"
  shows "partitioned a lo hi (\<lambda>e. cmp (fst e) key < 0)"
  unfolding partitioned_def
proof (intro allI impI)
  fix i j assume h: "lo \<le> i \<and> i < j \<and> j < hi \<and> cmp (fst (a j)) key < 0"
  then have "cmp (fst (a i)) (fst (a j)) < 0" using ascending_slotsD [OF asc, of i j] by simp
  moreover from h have "cmp (fst (a j)) key < 0" by simp
  ultimately show "cmp (fst (a i)) key < 0" by (rule cmp_trans [OF l])
qed

text \<open>In an ascending range the search lands on the slot that holds the key, if any.\<close>

lemma lb_post_finds_equal:
  assumes l: "comparator_laws cmp" and asc: "ascending cmp (slots a lo hi)"
    and post: "lb_post a lo hi (\<lambda>e. cmp (fst e) key < 0) r"
    and i: "lo \<le> i" "i < hi" and e: "cmp (fst (a i)) key = 0"
  shows "r = i"
proof (rule ccontr)
  assume ne: "r \<noteq> i"
  have "\<not> i < r"
  proof
    assume "i < r"
    then have "cmp (fst (a i)) key < 0" using lb_post_below [OF post i(1)] by simp
    with e show False by simp
  qed
  with ne have lt: "r < i" by simp
  have lo: "lo \<le> r" using lb_post_bounds [OF post] by simp
  have nr: "\<not> cmp (fst (a r)) key < 0" using lb_post_above [OF post, of r] lt i by simp
  have "cmp (fst (a r)) (fst (a i)) < 0" using ascending_slotsD [OF asc lo lt i(2)] .
  then have "cmp (fst (a r)) key < 0" using cmp_eq_right [OF l e, of "fst (a r)"] by simp
  with nr show False by simp
qed

text \<open>Every slot after one that holds the key holds a greater key.\<close>

lemma ascending_after_equal:
  assumes l: "comparator_laws cmp" and asc: "ascending cmp (slots a lo hi)"
    and r: "lo \<le> r" "r < j" "j < hi" and e: "cmp (fst (a r)) key = 0"
  shows "0 < cmp (fst (a j)) key"
proof -
  have "cmp (fst (a r)) (fst (a j)) < 0" using ascending_slotsD [OF asc r] .
  then have "cmp key (fst (a j)) < 0" using cmp_eq_left [OF l e, of "fst (a j)"] by simp
  then show ?thesis using cmp_flip [OF l, of key "fst (a j)"] by simp
qed

section \<open>Internal page lookup\<close>

text \<open>
  Claim C6.  On an internal page that holds its leftmost child (\<open>1 \<le> size\<close>) and whose
  keys in slots \<open>[1, size)\<close> ascend strictly under the comparator, \<^verbatim>\<open>Lookup\<close> searches
  those slots by binary search: the search returns the first slot whose key is not less
  than the key looked up, or \<open>size\<close>.  \<^verbatim>\<open>Lookup\<close> returns what \<^verbatim>\<open>ValueAt(i)\<close> returns if
  the key of slot \<open>i\<close> compares equal to the key, what \<^verbatim>\<open>ValueAt(i - 1)\<close> returns if \<open>i\<close> is
  the first slot whose key is greater, and what \<^verbatim>\<open>ValueAt(size - 1)\<close> returns, the last
  child, if no slot of \<open>[1, size)\<close> has a key greater than or equal to the key.  The key
  of an in-range slot \<open>i\<close>, which \<^verbatim>\<open>KeyAt(i)\<close> returns, is \<open>fst (array n i)\<close>.
\<close>

theorem Internal_Lookup_binary_search:
  assumes l: "comparator_laws cmp" and sz: "1 \<le> GetSize n"
    and asc: "ascending cmp (slots (array n) 1 (GetSize n))"
  shows
    "lb_post (array n) 1 (GetSize n) (\<lambda>e. cmp (fst e) key < 0)
       (lower_bound (array n) 1 (GetSize n) (\<lambda>e. cmp (fst e) key < 0)) \<and>
     (\<forall>i. 1 \<le> i \<and> i < GetSize n \<and> cmp (fst (array n i)) key = 0 \<longrightarrow>
          Internal_Lookup n key cmp = Internal_ValueAt n i) \<and>
     (\<forall>i. 1 \<le> i \<and> i < GetSize n \<and> 0 < cmp (fst (array n i)) key \<and>
          (\<forall>j. 1 \<le> j \<and> j < i \<longrightarrow> \<not> 0 < cmp (fst (array n j)) key) \<longrightarrow>
          Internal_Lookup n key cmp = Internal_ValueAt n (i - 1)) \<and>
     ((\<forall>i. 1 \<le> i \<and> i < GetSize n \<longrightarrow> \<not> 0 \<le> cmp (fst (array n i)) key) \<longrightarrow>
          Internal_Lookup n key cmp = Internal_ValueAt n (GetSize n - 1))"
proof -
  let ?P = "\<lambda>e. cmp (fst e) key < 0"
  define r where "r = lower_bound (array n) 1 (GetSize n) ?P"
  have part: "partitioned (array n) 1 (1 + (GetSize n - 1)) ?P"
    using ascending_partitioned [OF l asc] by simp
  have "lb_post (array n) 1 (1 + (GetSize n - 1)) ?P (lower_bound_loop (array n) 1 (GetSize n - 1) ?P)"
    using sz by (intro lower_bound_loop_spec [OF _ part]) simp
  then have post: "lb_post (array n) 1 (GetSize n) ?P r"
    by (simp add: r_def lower_bound_def)
  have lookup: "Internal_Lookup n key cmp =
      (if r = GetSize n then Internal_ValueAt n (GetSize n - 1)
       else if cmp (fst (array n r)) key = 0 then Inr (snd (array n r))
       else Inr (snd (array n (r - 1))))"
    by (simp add: Internal_Lookup_def r_def Let_def)
  have rb: "1 \<le> r" "r \<le> GetSize n" using lb_post_bounds [OF post] by simp_all
  have post_lt: "cmp (fst (array n i)) key < 0" if "1 \<le> i" "i < r" for i
    using lb_post_below [OF post that] .
  have post_ge: "\<not> cmp (fst (array n i)) key < 0" if "r \<le> i" "i < GetSize n" for i
    using lb_post_above [OF post that] .
  have c1: "Internal_Lookup n key cmp = Internal_ValueAt n i"
    if "1 \<le> i" "i < GetSize n" "cmp (fst (array n i)) key = 0" for i
  proof -
    have "r = i" using lb_post_finds_equal [OF l asc post that] .
    with that show ?thesis by (simp add: lookup Internal_ValueAt_def)
  qed
  have c2: "Internal_Lookup n key cmp = Internal_ValueAt n (i - 1)"
    if i: "1 \<le> i" "i < GetSize n" and gt: "0 < cmp (fst (array n i)) key"
      and first: "\<And>j. 1 \<le> j \<Longrightarrow> j < i \<Longrightarrow> \<not> 0 < cmp (fst (array n j)) key" for i
  proof -
    have "\<not> i < r"
    proof
      assume "i < r"
      then have "cmp (fst (array n i)) key < 0" using i post_lt by simp
      with gt show False by simp
    qed
    then have ri: "r \<le> i" by simp
    show ?thesis
    proof (cases "r = i")
      case True
      with i gt show ?thesis by (simp add: lookup Internal_ValueAt_def)
    next
      case False
      with ri have lt: "r < i" by simp
      have "\<not> cmp (fst (array n r)) key < 0" using post_ge [of r] lt i by simp
      moreover have "\<not> 0 < cmp (fst (array n r)) key" using first [of r] rb lt by simp
      ultimately have e: "cmp (fst (array n r)) key = 0" by simp
      have "r = i - 1"
      proof (rule ccontr)
        assume "r \<noteq> i - 1"
        with lt have a: "r < i - 1" by simp
        have "0 < cmp (fst (array n (i - 1))) key"
          using rb(1) a i(2) by (intro ascending_after_equal [OF l asc _ _ _ e]) simp_all
        moreover have "\<not> 0 < cmp (fst (array n (i - 1))) key"
          using first [of "i - 1"] rb a by simp
        ultimately show False by simp
      qed
      with e i lt show ?thesis by (simp add: lookup Internal_ValueAt_def)
    qed
  qed
  have c3: "Internal_Lookup n key cmp = Internal_ValueAt n (GetSize n - 1)"
    if none: "\<And>i. 1 \<le> i \<Longrightarrow> i < GetSize n \<Longrightarrow> \<not> 0 \<le> cmp (fst (array n i)) key"
  proof -
    have "r = GetSize n"
    proof (rule ccontr)
      assume "r \<noteq> GetSize n"
      with rb have lt: "r < GetSize n" by simp
      have "\<not> cmp (fst (array n r)) key < 0" using post_ge [of r] lt by simp
      moreover have "\<not> 0 \<le> cmp (fst (array n r)) key" using none [of r] rb lt by simp
      ultimately show False by simp
    qed
    then show ?thesis by (simp add: lookup)
  qed
  show ?thesis
  proof (intro conjI allI impI)
    show "lb_post (array n) 1 (GetSize n) ?P (lower_bound (array n) 1 (GetSize n) ?P)"
      using post by (simp add: r_def)
  next
    fix i assume "1 \<le> i \<and> i < GetSize n \<and> cmp (fst (array n i)) key = 0"
    then show "Internal_Lookup n key cmp = Internal_ValueAt n i" using c1 [of i] by simp
  next
    fix i
    assume h: "1 \<le> i \<and> i < GetSize n \<and> 0 < cmp (fst (array n i)) key \<and>
          (\<forall>j. 1 \<le> j \<and> j < i \<longrightarrow> \<not> 0 < cmp (fst (array n j)) key)"
    show "Internal_Lookup n key cmp = Internal_ValueAt n (i - 1)"
    proof (rule c2)
      show "1 \<le> i" "i < GetSize n" "0 < cmp (fst (array n i)) key" using h by simp_all
      fix j assume "1 \<le> j" "j < i"
      with h show "\<not> 0 < cmp (fst (array n j)) key" by blast
    qed
  next
    assume h: "\<forall>i. 1 \<le> i \<and> i < GetSize n \<longrightarrow> \<not> 0 \<le> cmp (fst (array n i)) key"
    show "Internal_Lookup n key cmp = Internal_ValueAt n (GetSize n - 1)"
    proof (rule c3)
      fix i assume "1 \<le> i" "i < GetSize n"
      with h show "\<not> 0 \<le> cmp (fst (array n i)) key" by blast
    qed
  qed
qed

lemma icmp_laws: "comparator_laws icmp"
  unfolding comparator_laws_def icmp_def by (auto simp: sgn_if)

lemma ascending_internal3: "ascending icmp (slots (array internal3) 1 (GetSize internal3))"
  by (simp add: ascending_def slots_def internal3_def icmp_def upto.simps)

theorem Internal_Lookup_binary_search_witness:
  "comparator_laws icmp \<and> 1 \<le> GetSize internal3 \<and>
   ascending icmp (slots (array internal3) 1 (GetSize internal3)) \<and>
   Internal_Lookup internal3 20 icmp = Internal_ValueAt internal3 2 \<and>
   Internal_ValueAt internal3 2 = Inr 102 \<and>
   Internal_Lookup internal3 15 icmp = Internal_ValueAt internal3 1 \<and>
   Internal_ValueAt internal3 1 = Inr 101 \<and>
   Internal_Lookup internal3 5 icmp = Internal_ValueAt internal3 0 \<and>
   Internal_ValueAt internal3 0 = Inr 100 \<and>
   Internal_Lookup internal3 25 icmp = Internal_ValueAt internal3 (GetSize internal3 - 1)"
proof -
  have sz: "1 \<le> GetSize internal3" by (simp add: internal3_def)
  have size3: "GetSize internal3 = 3" by (simp add: internal3_def)
  have keys: "fst (array internal3 1) = 10" "fst (array internal3 2) = 20"
    by (simp_all add: internal3_def)
  note T = Internal_Lookup_binary_search [OF icmp_laws sz ascending_internal3]
  have eq: "Internal_Lookup internal3 20 icmp = Internal_ValueAt internal3 2"
    by (rule T [THEN conjunct2, THEN conjunct1, rule_format])
      (simp add: size3 keys icmp_def)
  have "Internal_Lookup internal3 15 icmp = Internal_ValueAt internal3 (2 - 1)"
  proof (rule T [THEN conjunct2, THEN conjunct2, THEN conjunct1, rule_format], intro conjI allI impI)
    fix j :: int assume "1 \<le> j \<and> j < 2"
    then have "j = 1" by simp
    then show "\<not> 0 < icmp (fst (array internal3 j)) 15" by (simp add: keys icmp_def)
  qed (simp_all add: size3 keys icmp_def)
  then have g2: "Internal_Lookup internal3 15 icmp = Internal_ValueAt internal3 1" by simp
  have "Internal_Lookup internal3 5 icmp = Internal_ValueAt internal3 (1 - 1)"
  proof (rule T [THEN conjunct2, THEN conjunct2, THEN conjunct1, rule_format], intro conjI allI impI)
    fix j :: int assume "1 \<le> j \<and> j < 1"
    then show "\<not> 0 < icmp (fst (array internal3 j)) 5" by arith
  qed (simp_all add: size3 keys icmp_def)
  then have g1: "Internal_Lookup internal3 5 icmp = Internal_ValueAt internal3 0" by simp
  have none: "Internal_Lookup internal3 25 icmp = Internal_ValueAt internal3 (GetSize internal3 - 1)"
  proof (rule T [THEN conjunct2, THEN conjunct2, THEN conjunct2, rule_format])
    fix i :: int assume "1 \<le> i \<and> i < GetSize internal3"
    then have "i = 1 \<or> i = 2" by (auto simp: size3)
    then show "\<not> 0 \<le> icmp (fst (array internal3 i)) 25"
      by (auto simp: keys icmp_def)
  qed
  have vals: "Internal_ValueAt internal3 2 = Inr 102" "Internal_ValueAt internal3 1 = Inr 101"
    "Internal_ValueAt internal3 0 = Inr 100"
    by (simp_all add: Internal_ValueAt_def internal3_def)
  show ?thesis
    by (intro conjI icmp_laws sz ascending_internal3 eq g2 g1 none vals)
qed

section \<open>The leaf page's loops\<close>

text \<open>\<^verbatim>\<open>KeyIndex\<close> runs the same search as \<^verbatim>\<open>std::lower_bound\<close>; the shifting loops in closed form.\<close>

lemma KeyIndex_loop_lower_bound:
  "KeyIndex_loop a key cmp left right =
     lower_bound_loop a left (right - left) (\<lambda>e. cmp (fst e) key < 0)"
proof (induction a key cmp left right rule: KeyIndex_loop.induct)
  case (1 a key cmp left right)
  show ?case
  proof (cases "left < right")
    case False
    then show ?thesis
      by (subst KeyIndex_loop.simps, subst lower_bound_loop.simps) simp
  next
    case True
    define mid where "mid = left + (right - left) div 2"
    define comp_result where "comp_result = cmp (fst (a mid)) key"
    show ?thesis
    proof (cases "comp_result < 0")
      case lt: True
      have "KeyIndex_loop a key cmp left right = KeyIndex_loop a key cmp (mid + 1) right"
        using True lt by (subst KeyIndex_loop.simps) (simp add: mid_def comp_result_def Let_def)
      also have "\<dots> = lower_bound_loop a (mid + 1) (right - (mid + 1)) (\<lambda>e. cmp (fst e) key < 0)"
        by (rule "1.IH"(1) [OF True mid_def comp_result_def lt])
      also have "\<dots> = lower_bound_loop a left (right - left) (\<lambda>e. cmp (fst e) key < 0)"
        using True lt
        by (subst (2) lower_bound_loop.simps) (simp add: mid_def comp_result_def Let_def algebra_simps)
      finally show ?thesis .
    next
      case ge: False
      have "KeyIndex_loop a key cmp left right = KeyIndex_loop a key cmp left mid"
        using True ge by (subst KeyIndex_loop.simps) (simp add: mid_def comp_result_def Let_def)
      also have "\<dots> = lower_bound_loop a left (mid - left) (\<lambda>e. cmp (fst e) key < 0)"
        by (rule "1.IH"(2) [OF True mid_def comp_result_def ge])
      also have "\<dots> = lower_bound_loop a left (right - left) (\<lambda>e. cmp (fst e) key < 0)"
        using True ge
        by (subst (2) lower_bound_loop.simps) (simp add: mid_def comp_result_def Let_def)
      finally show ?thesis .
    qed
  qed
qed

lemma shift_right_eq:
  "shift_right a i index = (\<lambda>j. if index < j \<and> j \<le> i then a (j - 1) else a j)"
proof (induction a i index rule: shift_right.induct)
  case (1 a i index)
  show ?case
  proof (cases "index < i")
    case False
    then show ?thesis by (subst shift_right.simps) (auto intro!: ext)
  next
    case True
    have "shift_right a i index = shift_right (a(i := a (i - 1))) (i - 1) index"
      using True by (subst shift_right.simps) simp
    also have "\<dots> = (\<lambda>j. if index < j \<and> j \<le> i - 1 then (a(i := a (i - 1))) (j - 1)
                             else (a(i := a (i - 1))) j)"
      using True by (intro "1.IH") simp
    also have "\<dots> = (\<lambda>j. if index < j \<and> j \<le> i then a (j - 1) else a j)"
      using True by (intro ext) auto
    finally show ?thesis .
  qed
qed

lemma shift_left_eq:
  "shift_left a i sz = (\<lambda>j. if i \<le> j \<and> j < sz - 1 then a (j + 1) else a j)"
proof (induction a i sz rule: shift_left.induct)
  case (1 a i sz)
  show ?case
  proof (cases "i < sz - 1")
    case False
    then show ?thesis by (subst shift_left.simps) (auto intro!: ext)
  next
    case True
    have "shift_left a i sz = shift_left (a(i := a (i + 1))) (i + 1) sz"
      using True by (subst shift_left.simps) simp
    also have "\<dots> = (\<lambda>j. if i + 1 \<le> j \<and> j < sz - 1 then (a(i := a (i + 1))) (j + 1)
                             else (a(i := a (i + 1))) j)"
      using True by (intro "1.IH") simp
    also have "\<dots> = (\<lambda>j. if i \<le> j \<and> j < sz - 1 then a (j + 1) else a j)"
      using True by (intro ext) auto
    finally show ?thesis .
  qed
qed

lemma slots_nth0: "0 \<le> i \<Longrightarrow> i < hi \<Longrightarrow> slots a 0 hi ! nat i = a i"
  using slots_nth [of 0 i hi a] by simp

lemma Leaf_KeyIndex_post:
  assumes l: "comparator_laws cmp" and asc: "ascending cmp (slots (array n) 0 (GetSize n))"
    and sz: "0 \<le> GetSize n"
  shows "lb_post (array n) 0 (GetSize n) (\<lambda>e. cmp (fst e) key < 0) (Leaf_KeyIndex n key cmp)"
proof -
  have part: "partitioned (array n) 0 (0 + GetSize n) (\<lambda>e. cmp (fst e) key < 0)"
    using ascending_partitioned [OF l asc] by simp
  have "lb_post (array n) 0 (0 + GetSize n) (\<lambda>e. cmp (fst e) key < 0)
          (lower_bound_loop (array n) 0 (GetSize n) (\<lambda>e. cmp (fst e) key < 0))"
    by (rule lower_bound_loop_spec [OF sz part])
  then show ?thesis by (simp add: Leaf_KeyIndex_def KeyIndex_loop_lower_bound)
qed

lemma Leaf_KeyIndex_empty: "GetSize n \<le> 0 \<Longrightarrow> Leaf_KeyIndex n key cmp = 0"
  unfolding Leaf_KeyIndex_def by (subst KeyIndex_loop.simps) simp

lemma Leaf_KeyIndex_nonneg:
  assumes l: "comparator_laws cmp" and asc: "ascending cmp (slots (array n) 0 (GetSize n))"
  shows "0 \<le> Leaf_KeyIndex n key cmp"
proof (cases "0 \<le> GetSize n")
  case True
  show ?thesis using lb_post_bounds [OF Leaf_KeyIndex_post [OF l asc True]] by simp
next
  case False
  then show ?thesis by (simp add: Leaf_KeyIndex_empty)
qed

text \<open>The slots after an entry is put at slot \<open>k\<close> and the later entries move up by one.\<close>

lemma slots_insert:
  assumes k: "0 \<le> k" "k \<le> sz"
    and at: "a' k = e"
    and before: "\<And>j. 0 \<le> j \<Longrightarrow> j < k \<Longrightarrow> a' j = a j"
    and after: "\<And>j. k < j \<Longrightarrow> j \<le> sz \<Longrightarrow> a' j = a (j - 1)"
  shows "slots a' 0 (sz + 1) = take (nat k) (slots a 0 sz) @ e # drop (nat k) (slots a 0 sz)"
proof (rule nth_equalityI)
  show "length (slots a' 0 (sz + 1)) =
        length (take (nat k) (slots a 0 sz) @ e # drop (nat k) (slots a 0 sz))"
    using k by (simp add: slots_length)
next
  fix m assume "m < length (slots a' 0 (sz + 1))"
  then have m: "int m < sz + 1" by (simp add: slots_length)
  have lhs: "slots a' 0 (sz + 1) ! m = a' (int m)"
    using slots_nth0 [of "int m" "sz + 1" a'] m by simp
  have lk: "length (take (nat k) (slots a 0 sz)) = nat k"
    using k by (simp add: slots_length)
  consider (lt) "int m < k" | (eq) "int m = k" | (gt) "k < int m" by linarith
  then show "slots a' 0 (sz + 1) ! m =
             (take (nat k) (slots a 0 sz) @ e # drop (nat k) (slots a 0 sz)) ! m"
  proof cases
    case lt
    then have mk: "m < nat k" by simp
    have "(take (nat k) (slots a 0 sz) @ e # drop (nat k) (slots a 0 sz)) ! m
            = slots a 0 sz ! m"
      using mk k by (simp add: nth_append slots_length)
    also have "\<dots> = a (int m)" using slots_nth0 [of "int m" sz a] lt k by simp
    finally show ?thesis using lhs before [of "int m"] lt by simp
  next
    case eq
    then have mk: "m = nat k" by simp
    have "(take (nat k) (slots a 0 sz) @ e # drop (nat k) (slots a 0 sz)) ! m = e"
      using mk k by (simp add: nth_append slots_length)
    then show ?thesis using lhs at eq by simp
  next
    case gt
    then have mk: "nat k < m" using k by simp
    have "(take (nat k) (slots a 0 sz) @ e # drop (nat k) (slots a 0 sz)) ! m
            = (e # drop (nat k) (slots a 0 sz)) ! (m - nat k)"
      using mk k by (simp add: nth_append slots_length)
    also have "\<dots> = drop (nat k) (slots a 0 sz) ! (m - nat k - 1)"
      using mk by (simp add: nth_Cons')
    also have "\<dots> = slots a 0 sz ! (m - 1)"
      using mk m k by (simp add: slots_length)
    also have "\<dots> = a (int m - 1)"
      using slots_nth0 [of "int m - 1" sz a] m mk k by (simp add: nat_diff_distrib')
    finally show ?thesis using lhs after [of "int m"] gt m by simp
  qed
qed

section \<open>Leaf page insertion\<close>

lemma Leaf_Insert_rejects:
  assumes l: "comparator_laws cmp" and asc: "ascending cmp (slots (array n) 0 (GetSize n))"
    and h: "(\<exists>i. 0 \<le> i \<and> i < GetSize n \<and> cmp (fst (array n i)) key = 0) \<or>
            GetMaxSize n \<le> GetSize n"
  shows "Leaf_Insert n key v cmp = (n, GetSize n)"
proof (cases "GetMaxSize n \<le> GetSize n")
  case True
  then show ?thesis by (simp add: Leaf_Insert_def Let_def)
next
  case False
  with h obtain i where i: "0 \<le> i" "i < GetSize n" and e: "cmp (fst (array n i)) key = 0"
    by blast
  have sz: "0 \<le> GetSize n" using i by simp
  have "Leaf_KeyIndex n key cmp = i"
    by (rule lb_post_finds_equal [OF l asc Leaf_KeyIndex_post [OF l asc sz] i e])
  with i e show ?thesis by (simp add: Leaf_Insert_def Let_def)
qed

lemma Leaf_Insert_accepts:
  fixes n :: "('k, 'v) BPlusTreeLeafPage" and v :: 'v
  assumes l: "comparator_laws cmp" and asc: "ascending cmp (slots (array n) 0 (GetSize n))"
    and absent0: "\<forall>i. 0 \<le> i \<and> i < GetSize n \<longrightarrow> cmp (fst (array n i)) key \<noteq> 0"
    and room: "GetSize n < GetMaxSize n"
  defines "k \<equiv> Leaf_KeyIndex n key cmp"
  defines "a' \<equiv> (shift_right (array n) (GetSize n) k)(k := (key, v))"
  shows "Leaf_Insert n key v cmp = (n\<lparr>array := a', GetSize := GetSize n + 1\<rparr>, GetSize n + 1)"
    and "0 \<le> k" and "0 \<le> GetSize n \<Longrightarrow> k \<le> GetSize n"
    and "a' k = (key, v)"
    and "\<And>j. j < k \<Longrightarrow> a' j = array n j"
    and "\<And>j. k < j \<Longrightarrow> j \<le> GetSize n \<Longrightarrow> a' j = array n (j - 1)"
    and "\<And>j. k < j \<Longrightarrow> GetSize n < j \<Longrightarrow> a' j = array n j"
    and "ascending cmp (slots a' 0 (GetSize n + 1))"
proof -
  have absent: "cmp (fst (array n i)) key \<noteq> 0" if "0 \<le> i" "i < GetSize n" for i
    using absent0 that by simp
  show k0: "0 \<le> k" unfolding k_def by (rule Leaf_KeyIndex_nonneg [OF l asc])
  show kle: "k \<le> GetSize n" if "0 \<le> GetSize n"
    using lb_post_bounds [OF Leaf_KeyIndex_post [OF l asc that], of key] by (simp add: k_def)
  have nodup: "\<not> (k < GetSize n \<and> cmp (fst (array n k)) key = 0)"
    using absent [of k] k0 by blast
  show "Leaf_Insert n key v cmp = (n\<lparr>array := a', GetSize := GetSize n + 1\<rparr>, GetSize n + 1)"
    using nodup room by (simp add: Leaf_Insert_def Let_def k_def [symmetric] a'_def)
  show at: "a' k = (key, v)" by (simp add: a'_def)
  show before: "a' j = array n j" if "j < k" for j
    using that by (simp add: a'_def shift_right_eq)
  show after: "a' j = array n (j - 1)" if "k < j" "j \<le> GetSize n" for j
    using that by (simp add: a'_def shift_right_eq)
  show "a' j = array n j" if "k < j" "GetSize n < j" for j
    using that by (simp add: a'_def shift_right_eq)
  show "ascending cmp (slots a' 0 (GetSize n + 1))"
  proof (cases "0 \<le> GetSize n")
    case False
    then have "slots a' 0 (GetSize n + 1) = []" by (simp add: slots_def)
    then show ?thesis by (simp add: ascending_def)
  next
    case sz: True
    note post = Leaf_KeyIndex_post [OF l asc sz, of key, folded k_def]
    have less: "cmp (fst (array n i)) key < 0" if "0 \<le> i" "i < k" for i
      using lb_post_below [OF post that] .
    have greater: "cmp key (fst (array n i)) < 0" if "k \<le> i" "i < GetSize n" for i
    proof -
      have "\<not> cmp (fst (array n i)) key < 0" using lb_post_above [OF post that] .
      moreover have "cmp (fst (array n i)) key \<noteq> 0" using absent [of i] that k0 by simp
      ultimately have "0 < cmp (fst (array n i)) key" by simp
      then show ?thesis using cmp_flip [OF l, of key "fst (array n i)"] by simp
    qed
    show ?thesis
      unfolding ascending_slots_iff
    proof (intro allI impI)
      fix i j assume ij: "0 \<le> i \<and> i < j \<and> j < GetSize n + 1"
      consider (jlt) "j < k" | (jeq) "j = k" | (ieq) "i = k" "k < j" | (ilt) "i < k" "k < j"
        | (igt) "k < i" using ij by linarith
      then show "cmp (fst (a' i)) (fst (a' j)) < 0"
      proof cases
        case jlt
        then have "a' i = array n i" "a' j = array n j" using ij before by simp_all
        moreover have "cmp (fst (array n i)) (fst (array n j)) < 0"
          using ascending_slotsD [OF asc, of i j] ij jlt kle [OF sz] by simp
        ultimately show ?thesis by simp
      next
        case jeq
        then have "a' i = array n i" "a' j = (key, v)" using ij before at by simp_all
        moreover have "cmp (fst (array n i)) key < 0" using less [of i] ij jeq by simp
        ultimately show ?thesis by simp
      next
        case ieq
        then have "a' i = (key, v)" "a' j = array n (j - 1)" using ij after at by simp_all
        moreover have "cmp key (fst (array n (j - 1))) < 0"
          using greater [of "j - 1"] ij ieq by simp
        ultimately show ?thesis by simp
      next
        case ilt
        then have "a' i = array n i" "a' j = array n (j - 1)" using ij before after by simp_all
        moreover have "cmp (fst (array n i)) key < 0" using less [of i] ij ilt by simp
        moreover have "cmp key (fst (array n (j - 1))) < 0"
          using greater [of "j - 1"] ij ilt by simp
        ultimately show ?thesis using cmp_trans [OF l, of "fst (array n i)" key "fst (array n (j - 1))"]
          by simp
      next
        case igt
        then have "a' i = array n (i - 1)" "a' j = array n (j - 1)" using ij after by simp_all
        moreover have "cmp (fst (array n (i - 1))) (fst (array n (j - 1))) < 0"
          using ascending_slotsD [OF asc, of "i - 1" "j - 1"] ij igt k0 by simp
        ultimately show ?thesis by simp
      qed
    qed
  qed
qed

text \<open>
  Claim C7.  On a leaf page whose entries ascend strictly under the comparator,
  \<^verbatim>\<open>Insert\<close> returns the page unchanged and the old size when some entry's key compares
  equal to the key or when the page is full.  Otherwise it returns the old size plus one
  and a page that differs from the old one in the array and the size only: the new entry
  stands at the slot \<^verbatim>\<open>KeyIndex\<close> found, the slots before it are unchanged, the entries
  from that slot on have moved up by one, and the entries ascend strictly.
\<close>

theorem Leaf_Insert_sorted:
  fixes n :: "('k, 'v) BPlusTreeLeafPage" and v :: 'v
  assumes l: "comparator_laws cmp" and asc: "ascending cmp (slots (array n) 0 (GetSize n))"
  shows
    "((\<exists>i. 0 \<le> i \<and> i < GetSize n \<and> cmp (fst (array n i)) key = 0) \<or>
        GetMaxSize n \<le> GetSize n \<longrightarrow>
        Leaf_Insert n key v cmp = (n, GetSize n)) \<and>
     ((\<forall>i. 0 \<le> i \<and> i < GetSize n \<longrightarrow> cmp (fst (array n i)) key \<noteq> 0) \<and>
        GetSize n < GetMaxSize n \<longrightarrow>
        (\<exists>a' k. Leaf_Insert n key v cmp =
                   (n\<lparr>array := a', GetSize := GetSize n + 1\<rparr>, GetSize n + 1) \<and>
           k = Leaf_KeyIndex n key cmp \<and> 0 \<le> k \<and> a' k = (key, v) \<and>
           (\<forall>j. j < k \<longrightarrow> a' j = array n j) \<and>
           (\<forall>j. k < j \<and> j \<le> GetSize n \<longrightarrow> a' j = array n (j - 1)) \<and>
           (\<forall>j. k < j \<and> GetSize n < j \<longrightarrow> a' j = array n j) \<and>
           (0 \<le> GetSize n \<longrightarrow> k \<le> GetSize n \<and>
              slots a' 0 (GetSize n + 1) =
                take (nat k) (slots (array n) 0 (GetSize n)) @
                (key, v) # drop (nat k) (slots (array n) 0 (GetSize n))) \<and>
           ascending cmp (slots a' 0 (GetSize n + 1))))"
proof (intro conjI impI)
  assume "(\<exists>i. 0 \<le> i \<and> i < GetSize n \<and> cmp (fst (array n i)) key = 0) \<or>
        GetMaxSize n \<le> GetSize n"
  then show "Leaf_Insert n key v cmp = (n, GetSize n)"
    by (rule Leaf_Insert_rejects [OF l asc])
next
  assume h: "(\<forall>i. 0 \<le> i \<and> i < GetSize n \<longrightarrow> cmp (fst (array n i)) key \<noteq> 0) \<and>
        GetSize n < GetMaxSize n"
  then have absent: "\<forall>i. 0 \<le> i \<and> i < GetSize n \<longrightarrow> cmp (fst (array n i)) key \<noteq> 0"
    and room: "GetSize n < GetMaxSize n" by simp_all
  define k where "k = Leaf_KeyIndex n key cmp"
  define a' where "a' = (shift_right (array n) (GetSize n) k)(k := (key, v))"
  note A23 = Leaf_Insert_accepts(2,3) [OF l asc absent room, folded k_def]
  note A1 = Leaf_Insert_accepts(1) [OF l asc absent room, where v = v, folded k_def, folded a'_def]
  note A48 = Leaf_Insert_accepts(4-8) [OF l asc absent room, where v = v, folded k_def, folded a'_def]
  note A = A1 A23 A48
  have list: "k \<le> GetSize n \<and>
      slots a' 0 (GetSize n + 1) =
        take (nat k) (slots (array n) 0 (GetSize n)) @
        (key, v) # drop (nat k) (slots (array n) 0 (GetSize n))" if sz: "0 \<le> GetSize n"
  proof
    show kle: "k \<le> GetSize n" by (rule A(3) [OF sz])
    show "slots a' 0 (GetSize n + 1) =
        take (nat k) (slots (array n) 0 (GetSize n)) @
        (key, v) # drop (nat k) (slots (array n) 0 (GetSize n))"
      by (rule slots_insert [where a' = a' and a = "array n" and k = k and e = "(key, v)"])
        (simp_all add: A(2) kle A(4) A(5) A(6))
  qed
  show "\<exists>a' k. Leaf_Insert n key v cmp =
                   (n\<lparr>array := a', GetSize := GetSize n + 1\<rparr>, GetSize n + 1) \<and>
           k = Leaf_KeyIndex n key cmp \<and> 0 \<le> k \<and> a' k = (key, v) \<and>
           (\<forall>j. j < k \<longrightarrow> a' j = array n j) \<and>
           (\<forall>j. k < j \<and> j \<le> GetSize n \<longrightarrow> a' j = array n (j - 1)) \<and>
           (\<forall>j. k < j \<and> GetSize n < j \<longrightarrow> a' j = array n j) \<and>
           (0 \<le> GetSize n \<longrightarrow> k \<le> GetSize n \<and>
              slots a' 0 (GetSize n + 1) =
                take (nat k) (slots (array n) 0 (GetSize n)) @
                (key, v) # drop (nat k) (slots (array n) 0 (GetSize n))) \<and>
           ascending cmp (slots a' 0 (GetSize n + 1))"
  proof (intro exI [of _ a'] exI [of _ k] conjI allI impI)
    show "Leaf_Insert n key v cmp =
            (n\<lparr>array := a', GetSize := GetSize n + 1\<rparr>, GetSize n + 1)" by (rule A(1))
    show "k = Leaf_KeyIndex n key cmp" by (rule k_def)
    show "0 \<le> k" by (rule A(2))
    show "a' k = (key, v)" by (rule A(4))
    show "a' j = array n j" if "j < k" for j by (rule A(5) [OF that])
    show "a' j = array n (j - 1)" if "k < j \<and> j \<le> GetSize n" for j
      using that A(6) [of j] by simp
    show "a' j = array n j" if "k < j \<and> GetSize n < j" for j
      using that A(7) [of j] by simp
    show "k \<le> GetSize n" if "0 \<le> GetSize n" using list [OF that] by simp
    show "slots a' 0 (GetSize n + 1) =
        take (nat k) (slots (array n) 0 (GetSize n)) @
        (key, v) # drop (nat k) (slots (array n) 0 (GetSize n))" if "0 \<le> GetSize n"
      using list [OF that] by simp
    show "ascending cmp (slots a' 0 (GetSize n + 1))" by (rule A(8))
  qed
qed

text \<open>Facts about the example leaf pages.\<close>

lemma leaf2_facts:
  "GetSize leaf2 = 2" "GetMaxSize leaf2 = 4" "array leaf2 0 = (10, 1)" "array leaf2 1 = (30, 3)"
  by (simp_all add: leaf2_def leaf_of_def)

lemma leaf2_slots: "slots (array leaf2) 0 (GetSize leaf2) = [(10, 1), (30, 3)]"
  by (simp add: slots_def leaf2_facts upto.simps)

lemma leaf2_ascending: "ascending icmp (slots (array leaf2) 0 (GetSize leaf2))"
  by (simp add: leaf2_slots ascending_def icmp_def)

lemma leaf2_KeyIndex: "Leaf_KeyIndex leaf2 20 icmp = 1"
  by (simp add: Leaf_KeyIndex_def KeyIndex_loop.simps leaf2_facts icmp_def)

lemma leaf2_slots2: "slots (array leaf2) 0 2 = [(10, 1), (30, 3)]"
  using leaf2_slots by (simp add: leaf2_facts)

lemma leaf4_facts:
  "GetSize leaf4 = 4" "GetMaxSize leaf4 = 4"
  by (simp_all add: leaf4_def leaf_of_def)

lemma leaf4_ascending: "ascending icmp (slots (array leaf4) 0 (GetSize leaf4))"
  by (simp add: slots_def ascending_def leaf4_def leaf_of_def icmp_def upto.simps)

theorem Leaf_Insert_sorted_witness:
  "comparator_laws icmp \<and>
   ascending icmp (slots (array leaf2) 0 (GetSize leaf2)) \<and>
   ascending icmp (slots (array leaf4) 0 (GetSize leaf4)) \<and>
   Leaf_Insert leaf2 30 9 icmp = (leaf2, 2) \<and>
   Leaf_Insert leaf4 45 9 icmp = (leaf4, 4) \<and>
   snd (Leaf_Insert leaf2 20 2 icmp) = 3 \<and>
   GetSize (fst (Leaf_Insert leaf2 20 2 icmp)) = 3 \<and>
   slots (array (fst (Leaf_Insert leaf2 20 2 icmp))) 0 3 = [(10, 1), (20, 2), (30, 3)] \<and>
   ascending icmp (slots (array (fst (Leaf_Insert leaf2 20 2 icmp))) 0 3)"
proof -
  have dup: "Leaf_Insert leaf2 30 9 icmp = (leaf2, 2)"
  proof -
    have "\<exists>i. 0 \<le> i \<and> i < GetSize leaf2 \<and> icmp (fst (array leaf2 i)) 30 = 0"
      by (rule exI [of _ 1]) (simp add: leaf2_facts icmp_def)
    then show ?thesis
      using Leaf_Insert_sorted [OF icmp_laws leaf2_ascending, of 30 9, THEN conjunct1]
      by (simp add: leaf2_facts)
  qed
  have full: "Leaf_Insert leaf4 45 9 icmp = (leaf4, 4)"
    using Leaf_Insert_sorted [OF icmp_laws leaf4_ascending, of 45 9, THEN conjunct1]
    by (simp add: leaf4_facts)
  have absent: "\<forall>i. 0 \<le> i \<and> i < GetSize leaf2 \<longrightarrow> icmp (fst (array leaf2 i)) 20 \<noteq> 0"
  proof (intro allI impI)
    fix i :: int assume "0 \<le> i \<and> i < GetSize leaf2"
    then have "i = 0 \<or> i = 1" by (auto simp: leaf2_facts)
    then show "icmp (fst (array leaf2 i)) 20 \<noteq> 0" by (auto simp: leaf2_facts icmp_def)
  qed
  have room: "GetSize leaf2 < GetMaxSize leaf2" by (simp add: leaf2_facts)
  from Leaf_Insert_sorted [OF icmp_laws leaf2_ascending, of 20 2, THEN conjunct2, rule_format,
      OF conjI [OF absent room]]
  obtain a' k where
    ins: "Leaf_Insert leaf2 20 2 icmp =
            (leaf2\<lparr>array := a', GetSize := GetSize leaf2 + 1\<rparr>, GetSize leaf2 + 1)"
    and k: "k = Leaf_KeyIndex leaf2 20 icmp"
    and list: "0 \<le> GetSize leaf2 \<longrightarrow> k \<le> GetSize leaf2 \<and>
              slots a' 0 (GetSize leaf2 + 1) =
                take (nat k) (slots (array leaf2) 0 (GetSize leaf2)) @
                (20, 2) # drop (nat k) (slots (array leaf2) 0 (GetSize leaf2))"
    and asc: "ascending icmp (slots a' 0 (GetSize leaf2 + 1))"
    by blast
  have k1: "k = 1" using k leaf2_KeyIndex by simp
  have r: "snd (Leaf_Insert leaf2 20 2 icmp) = 3"
    "GetSize (fst (Leaf_Insert leaf2 20 2 icmp)) = 3"
    "array (fst (Leaf_Insert leaf2 20 2 icmp)) = a'"
    by (simp_all add: ins leaf2_facts)
  have sl: "slots a' 0 3 = [(10, 1), (20, 2), (30, 3)]"
    using list by (simp add: k1 leaf2_slots2 leaf2_facts)
  have asc3: "ascending icmp (slots a' 0 3)" using asc by (simp add: leaf2_facts)
  have f1: "slots (array (fst (Leaf_Insert leaf2 20 2 icmp))) 0 3 = [(10, 1), (20, 2), (30, 3)]"
    by (simp only: r(3) sl)
  have f2: "ascending icmp (slots (array (fst (Leaf_Insert leaf2 20 2 icmp))) 0 3)"
    by (simp only: r(3) asc3)
  show ?thesis
    by (intro conjI icmp_laws leaf2_ascending leaf4_ascending dup full r(1) r(2) f1 f2)
qed

section \<open>Moves into a full leaf page\<close>

lemma slots_shift_left:
  assumes "0 < sz"
  shows "slots a 0 sz = a 0 # slots (shift_left a 0 sz) 0 (sz - 1)"
proof (rule nth_equalityI)
  show "length (slots a 0 sz) = length (a 0 # slots (shift_left a 0 sz) 0 (sz - 1))"
    using assms by (simp add: slots_length)
next
  fix m assume "m < length (slots a 0 sz)"
  then have m: "int m < sz" by (simp add: slots_length)
  have lhs: "slots a 0 sz ! m = a (int m)" using slots_nth0 [of "int m" sz a] m by simp
  show "slots a 0 sz ! m = (a 0 # slots (shift_left a 0 sz) 0 (sz - 1)) ! m"
  proof (cases m)
    case 0
    with lhs show ?thesis by simp
  next
    case (Suc m')
    have "slots (shift_left a 0 sz) 0 (sz - 1) ! m' = shift_left a 0 sz (int m')"
      using slots_nth0 [of "int m'" "sz - 1" "shift_left a 0 sz"] m Suc by simp
    also have "\<dots> = a (int m' + 1)" using m Suc by (simp add: shift_left_eq)
    finally show ?thesis using lhs Suc by (simp add: add.commute)
  qed
qed

lemma slots_drop_last:
  assumes "0 < sz"
  shows "slots a 0 sz = slots a 0 (sz - 1) @ [a (sz - 1)]"
proof (rule nth_equalityI)
  show "length (slots a 0 sz) = length (slots a 0 (sz - 1) @ [a (sz - 1)])"
    using assms by (simp add: slots_length)
next
  fix m assume "m < length (slots a 0 sz)"
  then have m: "int m < sz" by (simp add: slots_length)
  have lhs: "slots a 0 sz ! m = a (int m)" using slots_nth0 [of "int m" sz a] m by simp
  show "slots a 0 sz ! m = (slots a 0 (sz - 1) @ [a (sz - 1)]) ! m"
  proof (cases "int m < sz - 1")
    case True
    then have "slots a 0 (sz - 1) ! m = a (int m)"
      using slots_nth0 [of "int m" "sz - 1" a] by simp
    moreover have "m < nat (sz - 1)" using True by simp
    ultimately show ?thesis using lhs by (simp add: nth_append slots_length)
  next
    case False
    with m have e: "int m = sz - 1" by simp
    then have "m = nat (sz - 1)" by simp
    then show ?thesis using lhs e by (simp add: nth_append slots_length)
  qed
qed

text \<open>
  Claim C10.  When the recipient leaf page is full (its size is at least its max size),
  \<^verbatim>\<open>CopyLastFrom\<close> and \<^verbatim>\<open>CopyFirstFrom\<close> return it unchanged.  So \<^verbatim>\<open>MoveFirstToEndOf\<close>
  and \<^verbatim>\<open>MoveLastToFrontOf\<close> from a non-empty page into a full recipient take one off the
  source's size and leave the recipient as it was: the source's entries are its first
  (respectively last) entry and the entries it keeps, and the entry moved is in neither
  page afterwards.
\<close>

theorem Leaf_full_recipient_drops_entry:
  fixes r s :: "('k, 'v) BPlusTreeLeafPage"
  assumes full: "GetSize r \<ge> GetMaxSize r"
  shows
    "Leaf_CopyLastFrom r item = r \<and> Leaf_CopyFirstFrom r item = r \<and>
     (0 < GetSize s \<longrightarrow>
        (\<exists>s'. Leaf_MoveFirstToEndOf s r = (s', r) \<and> GetSize s' = GetSize s - 1 \<and>
              slots (array s) 0 (GetSize s) = array s 0 # slots (array s') 0 (GetSize s')) \<and>
        (\<exists>s'. Leaf_MoveLastToFrontOf s r = (s', r) \<and> GetSize s' = GetSize s - 1 \<and>
              slots (array s) 0 (GetSize s) =
                slots (array s') 0 (GetSize s') @ [array s (GetSize s - 1)]))"
proof (intro conjI impI)
  show last: "Leaf_CopyLastFrom r item = r" for item
    using full by (simp add: Leaf_CopyLastFrom_def)
  show first: "Leaf_CopyFirstFrom r item = r" for item
    using full by (simp add: Leaf_CopyFirstFrom_def)
  assume ne: "0 < GetSize s"
  show "\<exists>s'. Leaf_MoveFirstToEndOf s r = (s', r) \<and> GetSize s' = GetSize s - 1 \<and>
              slots (array s) 0 (GetSize s) = array s 0 # slots (array s') 0 (GetSize s')"
  proof (intro exI conjI)
    show "Leaf_MoveFirstToEndOf s r =
            (s\<lparr>array := shift_left (array s) 0 (GetSize s), GetSize := GetSize s - 1\<rparr>, r)"
      using ne by (simp add: Leaf_MoveFirstToEndOf_def Let_def last)
    show "GetSize (s\<lparr>array := shift_left (array s) 0 (GetSize s), GetSize := GetSize s - 1\<rparr>)
            = GetSize s - 1" by simp
    show "slots (array s) 0 (GetSize s) =
            array s 0 # slots (array (s\<lparr>array := shift_left (array s) 0 (GetSize s),
                                        GetSize := GetSize s - 1\<rparr>)) 0
                          (GetSize (s\<lparr>array := shift_left (array s) 0 (GetSize s),
                                      GetSize := GetSize s - 1\<rparr>))"
      using slots_shift_left [OF ne, of "array s"] by simp
  qed
  show "\<exists>s'. Leaf_MoveLastToFrontOf s r = (s', r) \<and> GetSize s' = GetSize s - 1 \<and>
              slots (array s) 0 (GetSize s) =
                slots (array s') 0 (GetSize s') @ [array s (GetSize s - 1)]"
  proof (intro exI conjI)
    show "Leaf_MoveLastToFrontOf s r = (s\<lparr>GetSize := GetSize s - 1\<rparr>, r)"
      using ne by (simp add: Leaf_MoveLastToFrontOf_def Let_def first)
    show "GetSize (s\<lparr>GetSize := GetSize s - 1\<rparr>) = GetSize s - 1" by simp
    show "slots (array s) 0 (GetSize s) =
            slots (array (s\<lparr>GetSize := GetSize s - 1\<rparr>)) 0 (GetSize (s\<lparr>GetSize := GetSize s - 1\<rparr>))
              @ [array s (GetSize s - 1)]"
      using slots_drop_last [OF ne, of "array s"] by simp
  qed
qed

theorem Leaf_full_recipient_drops_entry_witness:
  "GetSize leaf4 \<ge> GetMaxSize leaf4 \<and> 0 < GetSize leaf2 \<and>
   Leaf_CopyLastFrom leaf4 (99, 9) = leaf4 \<and> Leaf_CopyFirstFrom leaf4 (99, 9) = leaf4 \<and>
   snd (Leaf_MoveFirstToEndOf leaf2 leaf4) = leaf4 \<and>
   GetSize (fst (Leaf_MoveFirstToEndOf leaf2 leaf4)) = 1 \<and>
   slots (array (fst (Leaf_MoveFirstToEndOf leaf2 leaf4))) 0 1 = [(30, 3)] \<and>
   snd (Leaf_MoveLastToFrontOf leaf2 leaf4) = leaf4 \<and>
   GetSize (fst (Leaf_MoveLastToFrontOf leaf2 leaf4)) = 1 \<and>
   slots (array (fst (Leaf_MoveLastToFrontOf leaf2 leaf4))) 0 1 = [(10, 1)]"
proof -
  have full: "GetSize leaf4 \<ge> GetMaxSize leaf4" by (simp add: leaf4_facts)
  have ne: "0 < GetSize leaf2" by (simp add: leaf2_facts)
  note T = Leaf_full_recipient_drops_entry [OF full, of "(99, 9)" leaf2]
  from T have c: "Leaf_CopyLastFrom leaf4 (99, 9) = leaf4" "Leaf_CopyFirstFrom leaf4 (99, 9) = leaf4"
    by simp_all
  from T ne obtain s1 where
    m1: "Leaf_MoveFirstToEndOf leaf2 leaf4 = (s1, leaf4)" "GetSize s1 = GetSize leaf2 - 1"
      "slots (array leaf2) 0 (GetSize leaf2) = array leaf2 0 # slots (array s1) 0 (GetSize s1)"
    by blast
  from T ne obtain s2 where
    m2: "Leaf_MoveLastToFrontOf leaf2 leaf4 = (s2, leaf4)" "GetSize s2 = GetSize leaf2 - 1"
      "slots (array leaf2) 0 (GetSize leaf2) =
         slots (array s2) 0 (GetSize s2) @ [array leaf2 (GetSize leaf2 - 1)]"
    by blast
  have s1: "slots (array s1) 0 1 = [(30, 3)]" using m1(2,3) by (simp add: leaf2_slots2 leaf2_facts)
  have s2: "slots (array s2) 0 1 = [(10, 1)]" using m2(2,3) by (simp add: leaf2_slots2 leaf2_facts)
  show ?thesis
    using full ne c m1(1,2) m2(1,2) s1 s2 by (simp add: leaf2_facts)
qed

section \<open>Accessors and an index out of range\<close>

text \<open>
  Claim C9, as the code has it.  For an index outside \<open>[0, size)\<close> the internal page's
  \<^verbatim>\<open>KeyAt\<close>, \<^verbatim>\<open>ValueAt\<close>, \<^verbatim>\<open>SetKeyAt\<close> and \<^verbatim>\<open>Remove\<close> throw \<^verbatim>\<open>OUT_OF_RANGE\<close>, return no
  value and leave the page unchanged.  The leaf page's accessors do not throw: \<^verbatim>\<open>KeyAt\<close>
  returns a value-initialised key, and \<^verbatim>\<open>GetItem\<close> returns slot 0 of a non-empty page and
  a value-initialised item of an empty one.
\<close>

theorem accessors_index_out_of_range:
  fixes n :: "('k, 'v) BPlusTreePage" and lf :: "('k, 'v) BPlusTreeLeafPage"
  shows
    "(index < 0 \<or> GetSize n \<le> index \<longrightarrow>
        Internal_KeyAt n index = Inl OUT_OF_RANGE \<and>
        Internal_ValueAt n index = Inl OUT_OF_RANGE \<and>
        Internal_SetKeyAt n index k = (Some OUT_OF_RANGE, n) \<and>
        Internal_Remove n index = (Some OUT_OF_RANGE, n)) \<and>
     (index < 0 \<or> GetSize lf \<le> index \<longrightarrow>
        Leaf_KeyAt dummy_item lf index = Inr (fst dummy_item) \<and>
        Leaf_GetItem dummy_item lf index =
          Inr (if 0 < GetSize lf then array lf 0 else dummy_item))"
  by (auto simp: Internal_KeyAt_def Internal_ValueAt_def Internal_SetKeyAt_def
      Internal_Remove_def Leaf_KeyAt_def Leaf_GetItem_def)

theorem accessors_index_out_of_range_witness:
  "GetSize internal3 \<le> 3 \<and> GetSize leaf2 \<le> 3 \<and>
   Internal_KeyAt internal3 3 = Inl OUT_OF_RANGE \<and>
   Internal_ValueAt internal3 3 = Inl OUT_OF_RANGE \<and>
   Internal_SetKeyAt internal3 3 15 = (Some OUT_OF_RANGE, internal3) \<and>
   Internal_Remove internal3 3 = (Some OUT_OF_RANGE, internal3) \<and>
   Leaf_KeyAt (0, 0) leaf2 3 = Inr 0 \<and>
   Leaf_GetItem (0, 0) leaf2 3 = Inr (10, 1)"
  using accessors_index_out_of_range [of 3 internal3 15 leaf2 "(0, 0)"]
  by (simp add: internal3_def leaf2_facts)

text \<open>
  The leaf page's \<^verbatim>\<open>KeyAt\<close> and \<^verbatim>\<open>GetItem\<close> at index 5 of a page of size 2 return a
  value and no out-of-range signal.
\<close>

theorem leaf_accessors_do_not_throw:
  "GetSize leaf2 \<le> 5 \<and> Leaf_KeyAt (0, 0) leaf2 5 = Inr 0 \<and>
   Leaf_KeyAt (0, 0) leaf2 5 \<noteq> Inl OUT_OF_RANGE \<and>
   Leaf_GetItem (0, 0) leaf2 5 = Inr (10, 1) \<and>
   Leaf_GetItem (0, 0) leaf2 5 \<noteq> Inl OUT_OF_RANGE"
  by (simp add: Leaf_KeyAt_def Leaf_GetItem_def leaf2_facts)

section \<open>The buffer pool manager on small pools\<close>

lemma pool2_simps:
  "free_list pool2 = [0, 1]" "page_table pool2 = Map.empty"
  "unpinned_frames (replacer pool2) = []" "disk_manager pool2 = empty_disk"
  "pages pool2 = (\<lambda>f. new_Page)"
  by (simp_all add: pool2_def new_BufferPoolManager_def new_LRUReplacer_def upt_rec)

lemma NewPageImpl_pool2:
  "NewPageImpl pool2 =
     (Some 0, Some 0,
      pool2\<lparr>disk_manager := empty_disk\<lparr>next_page_id := 1\<rparr>,
            free_list := [1],
            pages := (pages pool2)(0 := \<lparr>data = 0, page_id = 0, pin_count = 1, is_dirty = False\<rparr>),
            page_table := [0 \<mapsto> 0],
            replacer := \<lparr>unpinned_frames = []\<rparr>\<rparr>)"
  by (simp add: NewPageImpl_def pool2_simps AllocatePage_def empty_disk_def Pin_def new_Page_def)

lemma pool2_new_simps:
  "page_table pool2_new = [0 \<mapsto> 0]"
  "pages pool2_new 0 = \<lparr>data = 0, page_id = 0, pin_count = 1, is_dirty = False\<rparr>"
  "unpinned_frames (replacer pool2_new) = []"
  "free_list pool2_new = [1]"
  "written (disk_manager pool2_new) = []"
  by (simp_all add: pool2_new_def NewPageImpl_pool2 empty_disk_def)

lemma FetchPageImpl_pool2_new:
  "FetchPageImpl pool2_new 0 =
     Inr (Some 0,
          pool2_new\<lparr>pages := (pages pool2_new)
                       (0 := \<lparr>data = 0, page_id = 0, pin_count = 2, is_dirty = False\<rparr>),
                    replacer := \<lparr>unpinned_frames = []\<rparr>\<rparr>)"
  by (simp add: FetchPageImpl_def pool2_new_simps Pin_def)

lemma pool2_fetched_simps:
  "page_table pool2_fetched = [0 \<mapsto> 0]"
  "pages pool2_fetched 0 = \<lparr>data = 0, page_id = 0, pin_count = 2, is_dirty = False\<rparr>"
  "unpinned_frames (replacer pool2_fetched) = []"
  by (simp_all add: pool2_fetched_def FetchPageImpl_pool2_new pool2_new_simps)

text \<open>
  Claim C1, where the code departs from it.  Page 0 is resident in frame 0 with pin count
  2 and the replacer is empty.  \<^verbatim>\<open>UnpinPageImpl(0, false)\<close> returns true, but the pin
  count is still 2 afterwards, and frame 0 has been handed to the replacer although its
  pin count has not reached 0.
\<close>

theorem UnpinPageImpl_keeps_pin_count:
  "page_table pool2_fetched 0 = Some 0 \<and>
   pin_count (pages pool2_fetched 0) = 2 \<and>
   unpinned_frames (replacer pool2_fetched) = [] \<and>
   (\<exists>s. UnpinPageImpl pool2_fetched 0 False = Inr (True, s) \<and>
        pin_count (pages s 0) = 2 \<and>
        unpinned_frames (replacer s) = [0])"
  by (simp add: UnpinPageImpl_def pool2_fetched_simps Unpin_def)

text \<open>
  Claim C2, where the code departs from it.  After \<^verbatim>\<open>NewPage\<close> on a fresh pool, page 0 is
  the only resident page, its frame 0 has pin count 1 and is not in the replacer: the
  invariant holds.  After \<^verbatim>\<open>UnpinPageImpl(0, false)\<close> the frame is in the replacer with
  pin count 1: the invariant is broken.
\<close>

theorem UnpinPageImpl_breaks_replacer_invariant:
  "dom (page_table pool2_new) = {0} \<and> page_table pool2_new 0 = Some 0 \<and>
   replacer_agrees pool2_new 0 \<and>
   (\<exists>s. UnpinPageImpl pool2_new 0 False = Inr (True, s) \<and>
        page_table s 0 = Some 0 \<and> pin_count (pages s 0) = 1 \<and>
        0 \<in> set (unpinned_frames (replacer s)) \<and> \<not> replacer_agrees s 0)"
  by (simp add: UnpinPageImpl_def pool2_new_simps Unpin_def replacer_agrees_def)

lemma pool2_dirty_simps:
  "page_table pool2_dirty = [0 \<mapsto> 0]"
  "pages pool2_dirty 0 = \<lparr>data = 0, page_id = 0, pin_count = 1, is_dirty = True\<rparr>"
  "written (disk_manager pool2_dirty) = []"
  by (simp_all add: pool2_dirty_def UnpinPageImpl_def pool2_new_simps Unpin_def)

text \<open>
  Claim C3, where the code departs from it.  Page 0 is resident and dirty.
  \<^verbatim>\<open>FlushPageImpl(0)\<close> returns false, the page is still dirty and nothing has been
  written to disk.
\<close>

theorem FlushPageImpl_writes_nothing:
  "page_table pool2_dirty 0 = Some 0 \<and> is_dirty (pages pool2_dirty 0) \<and>
   fst (FlushPageImpl pool2_dirty 0) = False \<and>
   is_dirty (pages (snd (FlushPageImpl pool2_dirty 0)) 0) \<and>
   written (disk_manager (snd (FlushPageImpl pool2_dirty 0))) = []"
  by (simp add: FlushPageImpl_def pool2_dirty_simps)

text \<open>
  Claim C4, where the code departs from it.  Page 7 is not resident in the fresh pool.
  \<^verbatim>\<open>DeletePageImpl(7)\<close> returns false and has not called \<^verbatim>\<open>DeallocatePage\<close>.
\<close>

theorem DeletePageImpl_returns_false:
  "page_table pool2 7 = None \<and>
   fst (DeletePageImpl pool2 7) = False \<and>
   deallocated (disk_manager (snd (DeletePageImpl pool2 7))) = []"
  by (simp add: DeletePageImpl_def pool2_simps empty_disk_def)

text \<open>
  Claim C8, where the code departs from it.  Page 7 is not resident in the fresh pool.
  \<^verbatim>\<open>UnpinPageImpl(7, false)\<close> dereferences \<^verbatim>\<open>page_table_.end()\<close> instead of returning
  false; \<^verbatim>\<open>FlushPageImpl(7)\<close> returns false and leaves the pool unchanged.
\<close>

theorem UnpinPageImpl_not_resident:
  "page_table pool2 7 = None \<and>
   UnpinPageImpl pool2 7 False = Inl END_ITERATOR \<and>
   FlushPageImpl pool2 7 = (False, pool2)"
  by (simp add: UnpinPageImpl_def FlushPageImpl_def pool2_simps)

end
